theory Spec2Isabelle
  imports Complex_Main "HOL-Library.Word" "HOL-Library.AList" "HOL-Library.FSet"
    "HOL-Library.Multiset" "HOL-Library.Char_ord" "HOL-Library.List_Lexorder"
    "HOL-Library.Product_Lexorder"
begin

section \<open>MidDB: the storage engine of src/MidDB.cpp\<close>

text \<open>
  The engine modelled here is the second \<^verbatim>\<open>class MidDB\<close> of src/MidDB.cpp (lines 130-491:
  field index, HNSW index, asynchronous inserts, snapshots). Line numbers below refer to
  that file.

  \<^item> \<^verbatim>\<open>size_t\<close> is a 64-bit word, so \<^verbatim>\<open>nextLabel++\<close> and \<^verbatim>\<open>r.label+1\<close> wrap.
  \<^item> \<^verbatim>\<open>float\<close> is idealised as \<open>real\<close>: distances are exact, rounding is not modelled.
  \<^item> \<^verbatim>\<open>std::string\<close> is \<open>string\<close>, compared byte by byte as \<^verbatim>\<open>std::sort\<close> does.
  \<^item> An \<^verbatim>\<open>unordered_map\<close> that the code iterates (\<^verbatim>\<open>records\<close>, \<^verbatim>\<open>fields\<close>) is an association
    list with \<open>map_of\<close> for \<^verbatim>\<open>find\<close>, \<open>AList.update\<close> for \<^verbatim>\<open>m[k] = v\<close> and \<open>AList.delete\<close>
    for \<^verbatim>\<open>erase\<close>; one that is only looked up is a map; an \<^verbatim>\<open>unordered_set\<close> is a finite set.
  \<^item> \<^verbatim>\<open>int dim\<close> holds a vector length and is a \<open>nat\<close>; \<^verbatim>\<open>int topK\<close> is an \<open>int\<close>, with the
    conversion to \<^verbatim>\<open>size_t\<close> and the range of \<^verbatim>\<open>int\<close> written out where the code depends on them.
  \<^item> Undefined behaviour of the C++ is a value of type \<open>error\<close>: the function that models the
    operation returns no state. For \<^verbatim>\<open>remove\<close>, which reaches undefined behaviour on every
    stored record, \<open>remove_reading\<close> gives in addition the state that a build goes on to.
  \<^item> The locks, the queue and the worker thread are not modelled: every operation below
    runs under the engine lock, one at a time.
\<close>

type_synonym label = "64 word"

type_synonym vec = "real list"

datatype error = OutOfBoundsRead | UseAfterErase | SignedOverflow

text \<open>
  \<^verbatim>\<open>struct Record\<close> (lines 151-155). Its member \<^verbatim>\<open>fields\<close> is named \<open>rfields\<close>: the record
  package reserves \<open>fields\<close>.
\<close>

record Record =
  rfields :: "(string \<times> string) list"
  embedding :: vec
  label :: label

subsection \<open>The ANN index\<close>

text \<open>
  Modelled from the spec: the ANN index is \<^verbatim>\<open>hnswlib::HierarchicalNSW<float>\<close> over
  \<^verbatim>\<open>hnswlib::L2Space\<close>, a third-party header that is not part of src/. Its contract is
  section 4.5 of the spec: \<^verbatim>\<open>new(dim, capacity_hint)\<close>; \<^verbatim>\<open>add_point\<close> inserts or overwrites the
  point at a label; \<^verbatim>\<open>mark_deleted\<close> soft-deletes a label, which searches no longer return;
  \<^verbatim>\<open>search_knn\<close> gives the k nearest live points by L2 distance, fewer when the index is
  smaller. The model is the exact index that meets this contract (no approximation),
  with ties between equal distances broken by label. The capacity hint bounds nothing.

  Two things are taken from how the source calls it. It passes vectors as bare pointers
  (\<^verbatim>\<open>task.embedding.data()\<close>, \<^verbatim>\<open>embedding.data()\<close>), so the index reads \<open>adim\<close> components
  whatever the vector's length: a longer vector is cut, a shorter one is read past its
  end. And it consumes the search result with \<^verbatim>\<open>top()\<close>, \<^verbatim>\<open>pop()\<close> and \<^verbatim>\<open>empty()\<close>: the
  result is a \<^verbatim>\<open>std::priority_queue<std::pair<float, size_t>>\<close>, whose \<^verbatim>\<open>top()\<close> is its greatest
  pair.
\<close>

record ann =
  adim :: nat
  points :: "(label \<times> vec) list"
  deleted :: "label set"

text \<open>Modelled from the spec: \<^verbatim>\<open>new(dim, capacity_hint)\<close>, the empty index (hnswlib is absent).\<close>

definition ann_new :: "nat \<Rightarrow> ann" where
  "ann_new d = \<lparr>adim = d, points = [], deleted = {}\<rparr>"

text \<open>
  Modelled from the spec: \<^verbatim>\<open>add_point(vec, label)\<close> inserts or overwrites the point at the label
  (hnswlib is absent). It stores the \<open>adim\<close> components it reads from the pointer.
\<close>

definition addPoint :: "ann \<Rightarrow> vec \<Rightarrow> label \<Rightarrow> error + ann" where
  "addPoint a v l =
     (if length v < adim a then Inl OutOfBoundsRead
      else Inr (a\<lparr>points := AList.update l (take (adim a) v) (points a)\<rparr>))"

text \<open>Modelled from the spec: \<^verbatim>\<open>mark_deleted(label)\<close>, a soft delete (hnswlib is absent).\<close>

definition markDelete :: "ann \<Rightarrow> label \<Rightarrow> ann" where
  "markDelete a l = a\<lparr>deleted := insert l (deleted a)\<rparr>"

text \<open>
  Modelled from the spec: the metric is L2 (hnswlib is absent). The squared distance orders
  points as the distance does.
\<close>

definition L2Sqr :: "vec \<Rightarrow> vec \<Rightarrow> real" where
  "L2Sqr q v = sum_list (map (\<lambda>(x, y). (x - y)\<^sup>2) (zip q v))"

text \<open>
  Modelled from the spec: \<^verbatim>\<open>search_knn(query_vec, k)\<close>, the \<open>k\<close> nearest points that are not
  soft-deleted, fewer when the index is smaller (hnswlib is absent). The value is the
  content of the returned priority queue, the pairs (distance, label), listed nearest
  first. The query is read only when a point is stored.
\<close>

definition searchKnn :: "ann \<Rightarrow> vec \<Rightarrow> nat \<Rightarrow> error + (real \<times> label) list" where
  "searchKnn a q k =
     (if points a = [] then Inr []
      else if length q < adim a then Inl OutOfBoundsRead
      else Inr (take k (sort (map (\<lambda>(l, v). (L2Sqr (take (adim a) q) v, l))
                                 (filter (\<lambda>(l, v). l \<notin> deleted a) (points a))))))"

text \<open>
  \<^verbatim>\<open>std::priority_queue\<close> with the default comparison is a max-heap on the pairs: \<^verbatim>\<open>top()\<close> is
  the greatest pair (largest distance, then largest label) and \<^verbatim>\<open>pop()\<close> removes it.
\<close>

definition pq_top :: "(real \<times> label) list \<Rightarrow> real \<times> label" where
  "pq_top q = Max (set q)"

definition pq_pop :: "(real \<times> label) list \<Rightarrow> (real \<times> label) list" where
  "pq_pop q = remove1 (Max (set q)) q"

subsection \<open>Tables and the engine state\<close>

record Table =
  records :: "(string \<times> Record) list"
  index :: "ann option"
  labelToID :: "label \<rightharpoonup> string"
  nextLabel :: label
  dim :: nat
  fieldIndex :: "string \<rightharpoonup> (string \<rightharpoonup> string fset)"

text \<open>The engine state is \<^verbatim>\<open>MidDB::tables\<close>.\<close>

type_synonym tables = "string \<rightharpoonup> Table"

definition new_Table :: Table where
  "new_Table = \<lparr>records = [], index = None, labelToID = Map.empty, nextLabel = 0, dim = 0,
                 fieldIndex = Map.empty\<rparr>"

subsection \<open>queryField (lines 315-330)\<close>

text \<open>
  The loop copies the bucket's ids in the set's iteration order and \<^verbatim>\<open>std::sort\<close> orders them:
  together they give the sorted list of the set.
\<close>

definition queryField :: "tables \<Rightarrow> string \<Rightarrow> string \<Rightarrow> string \<Rightarrow> string list" where
  "queryField tbls tname field val =
     (case tbls tname of
        None \<Rightarrow> []
      | Some table \<Rightarrow>
          (case fieldIndex table field of
             None \<Rightarrow> []
           | Some fit \<Rightarrow>
               (case fit val of
                  None \<Rightarrow> []
                | Some vit \<Rightarrow> sorted_list_of_fset vit)))"

subsection \<open>createTable (lines 266-270) and processInsert (lines 204-238)\<close>

record InsertTask =
  tableName :: string
  recordID :: string
  task_fields :: "(string \<times> string) list"
  task_embedding :: vec

definition createTable :: "tables \<Rightarrow> string \<Rightarrow> nat \<Rightarrow> tables" where
  "createTable tbls tname d =
     (if tbls tname \<noteq> None then tbls else tbls(tname \<mapsto> new_Table\<lparr>dim := d\<rparr>))"

text \<open>\<^verbatim>\<open>tables[tableName]\<close>: \<^verbatim>\<open>operator[]\<close> gives a fresh \<^verbatim>\<open>Table\<close> for a missing key.\<close>

definition table_at :: "tables \<Rightarrow> string \<Rightarrow> Table" where
  "table_at tbls tname = (case tbls tname of None \<Rightarrow> new_Table | Some t \<Rightarrow> t)"

text \<open>\<^verbatim>\<open>fieldIndex[key][val].insert(recordID)\<close>, both \<^verbatim>\<open>operator[]\<close> creating what is missing.\<close>

definition index_insert ::
  "(string \<rightharpoonup> (string \<rightharpoonup> string fset)) \<Rightarrow> string \<Rightarrow> string \<Rightarrow> string
     \<Rightarrow> (string \<rightharpoonup> (string \<rightharpoonup> string fset))" where
  "index_insert fi key val rid =
     (let byVal = (case fi key of None \<Rightarrow> Map.empty | Some m \<Rightarrow> m);
          ids = (case byVal val of None \<Rightarrow> {||} | Some s \<Rightarrow> s)
      in fi(key \<mapsto> byVal(val \<mapsto> finsert rid ids)))"

text \<open>
  Lines 211-235, on the reference \<^verbatim>\<open>table\<close>: the index is created when absent, the record is
  updated in place (label kept) or inserted at \<^verbatim>\<open>nextLabel++\<close>, \<^verbatim>\<open>labelToID\<close> and \<^verbatim>\<open>fieldIndex\<close>
  get the new entries, and the point is added last. Nothing removes an entry of
  \<^verbatim>\<open>fieldIndex\<close> here.
\<close>

definition upsert :: "Table \<Rightarrow> InsertTask \<Rightarrow> error + Table" where
  "upsert table task =
     (let a = (case index table of
                 None \<Rightarrow> ann_new (length (task_embedding task))
               | Some a \<Rightarrow> a);
          lbl = (case map_of (records table) (recordID task) of
                   Some r \<Rightarrow> label r
                 | None \<Rightarrow> nextLabel table);
          table1 = (case map_of (records table) (recordID task) of
                      Some r \<Rightarrow>
                        table\<lparr>records := AList.update (recordID task)
                            (r\<lparr>rfields := task_fields task, embedding := task_embedding task\<rparr>)
                            (records table)\<rparr>
                    | None \<Rightarrow>
                        table\<lparr>nextLabel := nextLabel table + 1,
                          records := AList.update (recordID task)
                            \<lparr>rfields = task_fields task, embedding = task_embedding task,
                             label = nextLabel table\<rparr>
                            (records table)\<rparr>);
          table2 = table1\<lparr>labelToID := (labelToID table1)(lbl \<mapsto> recordID task)\<rparr>;
          table3 = table2\<lparr>fieldIndex :=
                     fold (\<lambda>(key, val) fi. index_insert fi key val (recordID task))
                       (task_fields task) (fieldIndex table2)\<rparr>
      in case addPoint a (task_embedding task) lbl of
           Inl e \<Rightarrow> Inl e
         | Inr a' \<Rightarrow> Inr (table3\<lparr>index := Some a'\<rparr>))"

definition processInsert :: "tables \<Rightarrow> InsertTask \<Rightarrow> error + tables" where
  "processInsert tbls task =
     (let tbls1 = (if tbls (tableName task) = None
                   then createTable tbls (tableName task) (length (task_embedding task))
                   else tbls)
      in case upsert (table_at tbls1 (tableName task)) task of
           Inl e \<Rightarrow> Inl e
         | Inr table \<Rightarrow> Inr (tbls1(tableName task \<mapsto> table)))"

text \<open>
  \<^verbatim>\<open>insert\<close> and \<^verbatim>\<open>update\<close> (lines 272-286) both enqueue the task; the worker applies the
  queue in order with \<^verbatim>\<open>processInsert\<close>. A run of the worker over a list of tasks:
\<close>

fun processAll :: "tables \<Rightarrow> InsertTask list \<Rightarrow> error + tables" where
  "processAll tbls [] = Inr tbls"
| "processAll tbls (task # rest) =
     (case processInsert tbls task of
        Inl e \<Rightarrow> Inl e
      | Inr tbls' \<Rightarrow> processAll tbls' rest)"

subsection \<open>remove (lines 288-313)\<close>

text \<open>
  The \<^verbatim>\<open>find\<close>/\<^verbatim>\<open>erase\<close> guards of lines 302-305: nothing is created, and an emptied bucket stays.
\<close>

definition index_erase ::
  "(string \<rightharpoonup> (string \<rightharpoonup> string fset)) \<Rightarrow> string \<Rightarrow> string \<Rightarrow> string
     \<Rightarrow> (string \<rightharpoonup> (string \<rightharpoonup> string fset))" where
  "index_erase fi key val rid =
     (case fi key of
        None \<Rightarrow> fi
      | Some byVal \<Rightarrow>
          (case byVal val of
             None \<Rightarrow> fi
           | Some ids \<Rightarrow> fi(key \<mapsto> byVal(val \<mapsto> ids |-| {|rid|}))))"

text \<open>
  An iterator into \<^verbatim>\<open>records\<close> is the key of the node it points at, and \<^verbatim>\<open>it->second\<close> reads
  that node in the map as it is now. \<^verbatim>\<open>records.erase(it)\<close> destroys the node and invalidates
  \<^verbatim>\<open>it\<close>; reading through it afterwards is a use after erase.
\<close>

definition deref :: "(string \<times> Record) list \<Rightarrow> string \<Rightarrow> error + Record" where
  "deref recs it = (case map_of recs it of None \<Rightarrow> Inl UseAfterErase | Some r \<Rightarrow> Inr r)"

text \<open>
  Line 297 erases the record and line 301 then iterates \<^verbatim>\<open>it->second.fields\<close> through the
  same iterator.
\<close>

definition remove :: "tables \<Rightarrow> string \<Rightarrow> string \<Rightarrow> error + tables" where
  "remove tbls tname rid =
     (case tbls tname of
        None \<Rightarrow> Inr tbls
      | Some table \<Rightarrow>
          (case map_of (records table) rid of
             None \<Rightarrow> Inr tbls
           | Some r \<Rightarrow>
               (let lbl = label r;
                    table1 = table\<lparr>records := AList.delete rid (records table)\<rparr>;
                    table2 = table1\<lparr>labelToID := (labelToID table1)(lbl := None)\<rparr>
                in case deref (records table2) rid of
                     Inl e \<Rightarrow> Inl e
                   | Inr r' \<Rightarrow>
                       (let table3 = table2\<lparr>fieldIndex :=
                                       fold (\<lambda>(key, val) fi. index_erase fi key val rid)
                                         (rfields r') (fieldIndex table2)\<rparr>;
                            table4 = table3\<lparr>index :=
                                       map_option (\<lambda>a. markDelete a lbl) (index table3)\<rparr>
                        in Inr (tbls(tname \<mapsto> table4))))))"

text \<open>
  What a build does once line 301 has read through the erased iterator is not fixed by
  the language. The states that follow a delete are therefore given for every field list
  that this read may yield: \<open>fs\<close> is the list that the loop of lines 301-307 walks. All
  else is \<^verbatim>\<open>remove\<close> as written: the label is read at line 295, lines 297-298 erase the
  record and its \<^verbatim>\<open>labelToID\<close> entry before the loop, and line 310 marks the label deleted
  after it. When the table or the record is absent nothing changes.
\<close>

definition remove_reading ::
  "(string \<times> string) list \<Rightarrow> tables \<Rightarrow> string \<Rightarrow> string \<Rightarrow> tables" where
  "remove_reading fs tbls tname rid =
     (case tbls tname of
        None \<Rightarrow> tbls
      | Some table \<Rightarrow>
          (case map_of (records table) rid of
             None \<Rightarrow> tbls
           | Some r \<Rightarrow>
               (let lbl = label r;
                    table1 = table\<lparr>records := AList.delete rid (records table)\<rparr>;
                    table2 = table1\<lparr>labelToID := (labelToID table1)(lbl := None)\<rparr>;
                    table3 = table2\<lparr>fieldIndex :=
                               fold (\<lambda>(key, val) fi. index_erase fi key val rid)
                                 fs (fieldIndex table2)\<rparr>;
                    table4 = table3\<lparr>index :=
                               map_option (\<lambda>a. markDelete a lbl) (index table3)\<rparr>
                in tbls(tname \<mapsto> table4))))"

subsection \<open>queryEmbedding (lines 332-346) and queryHybrid (lines 348-362)\<close>

text \<open>
  \<^verbatim>\<open>topK\<close> is a C++ \<^verbatim>\<open>int\<close>; passing it as \<^verbatim>\<open>size_t k\<close> and the cast \<^verbatim>\<open>(size_t)topK\<close> reduce it
  modulo \<open>2^64\<close>. \<^verbatim>\<open>topK*10\<close> is computed in \<^verbatim>\<open>int\<close>, where overflow is undefined.
\<close>

definition size_t_of_int :: "int \<Rightarrow> nat" where
  "size_t_of_int i = nat (i mod 2 ^ 64)"

definition int_range :: "int \<Rightarrow> bool" where
  "int_range i = (- (2 ^ 31) \<le> i \<and> i < 2 ^ 31)"

text \<open>
  The loop of lines 340-344: take the top of the queue, pop it, and append the id of its
  label when \<^verbatim>\<open>labelToID\<close> has one.
\<close>

function drain ::
  "(real \<times> label) list \<Rightarrow> (label \<rightharpoonup> string) \<Rightarrow> string list \<Rightarrow> string list" where
  "drain labels l2i result =
     (if labels = [] then result
      else drain (pq_pop labels) l2i
             (case l2i (snd (pq_top labels)) of
                None \<Rightarrow> result
              | Some rid \<Rightarrow> result @ [rid]))"
  by pat_completeness auto
termination
  by (relation "measure (\<lambda>(labels, l2i, result). length labels)")
     (auto simp: pq_pop_def length_remove1 intro!: diff_less)

declare drain.simps [simp del]

definition queryEmbedding :: "tables \<Rightarrow> string \<Rightarrow> vec \<Rightarrow> int \<Rightarrow> error + string list" where
  "queryEmbedding tbls tname emb topK =
     (case tbls tname of
        None \<Rightarrow> Inr []
      | Some table \<Rightarrow>
          (case index table of
             None \<Rightarrow> Inr []
           | Some a \<Rightarrow>
               (case searchKnn a emb (size_t_of_int topK) of
                  Inl e \<Rightarrow> Inl e
                | Inr labels \<Rightarrow> Inr (drain labels (labelToID table) []))))"

definition queryHybrid ::
  "tables \<Rightarrow> string \<Rightarrow> string \<Rightarrow> string \<Rightarrow> vec \<Rightarrow> int \<Rightarrow> error + string list" where
  "queryHybrid tbls tname field val emb topK =
     (let filteredIDs = queryField tbls tname field val
      in if filteredIDs = [] then Inr []
         else if \<not> int_range (topK * 10) then Inl SignedOverflow
         else case queryEmbedding tbls tname emb (topK * 10) of
                Inl e \<Rightarrow> Inl e
              | Inr candidateIDs \<Rightarrow>
                  (let final = filter (\<lambda>rid. rid \<in> set filteredIDs) candidateIDs
                   in Inr (if length final > size_t_of_int topK
                           then take (size_t_of_int topK) final
                           else final)))"

subsection \<open>saveTable (lines 364-374) and loadTable (lines 381-404)\<close>

text \<open>
  The snapshot is a JSON object: a \<^verbatim>\<open>std::map\<close> from record id to the record's three members,
  kept in key order. \<^verbatim>\<open>j[id] = ...\<close> replaces the entry of a key or inserts it at its place.
  The JSON text is not modelled: writing and parsing return the strings, the numbers and
  the label of a record unchanged. \<open>saveTable\<close> is the snapshot written for a table; the
  worker calls it for the tables that exist.
\<close>

fun json_set :: "(string \<times> 'v) list \<Rightarrow> string \<Rightarrow> 'v \<Rightarrow> (string \<times> 'v) list" where
  "json_set [] k v = [(k, v)]"
| "json_set ((k', v') # rest) k v =
     (if k < k' then (k, v) # (k', v') # rest
      else if k = k' then (k, v) # rest
      else (k', v') # json_set rest k v)"

definition saveTable :: "tables \<Rightarrow> string \<Rightarrow> (string \<times> Record) list" where
  "saveTable tbls tname =
     fold (\<lambda>(rid, r) j. json_set j rid r) (records (table_at tbls tname)) []"

text \<open>One turn of the loop of lines 387-398, on the table \<^verbatim>\<open>t\<close> being built.\<close>

definition load_item :: "string \<times> Record \<Rightarrow> Table \<Rightarrow> Table" where
  "load_item item t =
     (let rid = fst item;
          r = snd item;
          t1 = t\<lparr>records := AList.update rid r (records t)\<rparr>;
          t2 = t1\<lparr>labelToID := (labelToID t1)(label r \<mapsto> rid)\<rparr>;
          t3 = t2\<lparr>fieldIndex :=
                 fold (\<lambda>(key, val) fi. index_insert fi key val rid) (rfields r) (fieldIndex t2)\<rparr>;
          t4 = (if dim t3 = 0 then t3\<lparr>dim := length (embedding r)\<rparr> else t3)
      in if label r \<ge> nextLabel t4 then t4\<lparr>nextLabel := label r + 1\<rparr> else t4)"

text \<open>
  \<open>file\<close> is the parsed content of \<^verbatim>\<open>data/<table>.json\<close> (\<open>None\<close> when the file cannot be
  opened), its items in key order; \<open>indexFile\<close> is the index stored in \<^verbatim>\<open>data/<table>.index\<close>
  (\<open>None\<close> when there is no such file), which is bound to the table's \<open>dim\<close>.
\<close>

definition loadTable ::
  "tables \<Rightarrow> string \<Rightarrow> (string \<times> Record) list option \<Rightarrow> ann option \<Rightarrow> tables" where
  "loadTable tbls tname file indexFile =
     (case file of
        None \<Rightarrow> tbls
      | Some j \<Rightarrow>
          (let t = fold load_item j new_Table;
               t' = (case indexFile of
                       None \<Rightarrow> t
                     | Some a \<Rightarrow> if dim t > 0 then t\<lparr>index := Some (a\<lparr>adim := dim t\<rparr>)\<rparr> else t)
           in tbls(tname \<mapsto> t')))"

subsection \<open>Reachable states\<close>

text \<open>
  The engine starts with no table, loads the snapshots found in the storage directory
  (lines 249-255), and then applies queued upserts and deletes, each under the write lock.
  An upsert that reads a vector past its end has no successor. A delete has the successors
  that \<open>remove_reading\<close> gives, one for every field list that the read through the erased
  iterator may yield; the delete of an absent record leaves the state as it is. Loads are
  allowed at any point and with any index file, which only adds states. A snapshot holds
  each record id once, as the members of a JSON object do; its labels, fields and
  embeddings are whatever the file gives.
\<close>

inductive reachable :: "tables \<Rightarrow> bool" where
  start: "reachable Map.empty"
| load: "reachable tbls \<Longrightarrow> (case file of None \<Rightarrow> True | Some j \<Rightarrow> distinct (map fst j)) \<Longrightarrow>
           reachable (loadTable tbls tname file indexFile)"
| upsert: "reachable tbls \<Longrightarrow> processInsert tbls task = Inr tbls' \<Longrightarrow> reachable tbls'"
| delete: "reachable tbls \<Longrightarrow> reachable (remove_reading fs tbls tname rid)"

subsection \<open>Predicates on tables\<close>

text \<open>A record id is live in a table when \<^verbatim>\<open>records\<close> holds it.\<close>

definition live :: "tables \<Rightarrow> string \<Rightarrow> string \<Rightarrow> bool" where
  "live tbls tname rid =
     (case tbls tname of None \<Rightarrow> False | Some t \<Rightarrow> map_of (records t) rid \<noteq> None)"

text \<open>
  Every id that \<^verbatim>\<open>labelToID\<close> holds is the id of a stored record, and that record carries
  the label.
\<close>

definition labels_live :: "Table \<Rightarrow> bool" where
  "labels_live t =
     (\<forall>l rid. labelToID t l = Some rid
        \<longrightarrow> (\<exists>r. map_of (records t) rid = Some r \<and> label r = l))"

definition all_labels_live :: "tables \<Rightarrow> bool" where
  "all_labels_live tbls = (\<forall>tname t. tbls tname = Some t \<longrightarrow> labels_live t)"

text \<open>Every stored record's label lies below \<^verbatim>\<open>nextLabel\<close>.\<close>

definition labels_below :: "Table \<Rightarrow> bool" where
  "labels_below t = (\<forall>rid r. map_of (records t) rid = Some r \<longrightarrow> label r < nextLabel t)"

text \<open>\<^verbatim>\<open>labelToID\<close> maps exactly the labels of the stored records to their ids.\<close>

definition label_map_exact :: "Table \<Rightarrow> bool" where
  "label_map_exact t =
     (\<forall>l rid. labelToID t l = Some rid
        \<longleftrightarrow> (\<exists>r. map_of (records t) rid = Some r \<and> label r = l))"

text \<open>The association list of every table's \<^verbatim>\<open>records\<close> has one entry per record id.\<close>

definition distinct_ids :: "tables \<Rightarrow> bool" where
  "distinct_ids tbls = (\<forall>tname t. tbls tname = Some t \<longrightarrow> distinct (map fst (records t)))"

text \<open>\<open>rid\<close> is in \<^verbatim>\<open>fieldIndex[key][val]\<close>.\<close>

definition in_index ::
  "(string \<rightharpoonup> (string \<rightharpoonup> string fset)) \<Rightarrow> string \<Rightarrow> string \<Rightarrow> string \<Rightarrow> bool" where
  "in_index fi key val rid =
     (case fi key of
        None \<Rightarrow> False
      | Some byVal \<Rightarrow> (case byVal val of None \<Rightarrow> False | Some ids \<Rightarrow> rid |\<in>| ids))"

subsection \<open>Labels handed out by a run of the worker\<close>

definition label_of :: "tables \<Rightarrow> string \<Rightarrow> string \<Rightarrow> label list" where
  "label_of tbls tname rid =
     (case map_of (records (table_at tbls tname)) rid of None \<Rightarrow> [] | Some r \<Rightarrow> [label r])"

text \<open>
  The labels that a run of the worker gives to the record ids that are new in table
  \<open>tname\<close>, in the order of assignment. Each label is read from the record that the step
  has stored.
\<close>

fun assigned :: "tables \<Rightarrow> string \<Rightarrow> InsertTask list \<Rightarrow> label list" where
  "assigned tbls tname [] = []"
| "assigned tbls tname (task # rest) =
     (case processInsert tbls task of
        Inl e \<Rightarrow> []
      | Inr tbls' \<Rightarrow>
          (if tableName task = tname
              \<and> map_of (records (table_at tbls tname)) (recordID task) = None
           then label_of tbls' tname (recordID task) else [])
          @ assigned tbls' tname rest)"

subsection \<open>Example runs\<close>

definition mk_task :: "string \<Rightarrow> string \<Rightarrow> (string \<times> string) list \<Rightarrow> vec \<Rightarrow> InsertTask" where
  "mk_task tname rid fs emb =
     \<lparr>tableName = tname, recordID = rid, task_fields = fs, task_embedding = emb\<rparr>"

definition the_tables :: "error + tables \<Rightarrow> tables" where
  "the_tables x = (case x of Inl e \<Rightarrow> Map.empty | Inr tbls \<Rightarrow> tbls)"

text \<open>Three inserts into a fresh engine: \<open>user2\<close> far from the origin, \<open>user1\<close> nearest.\<close>

definition ex_tasks :: "InsertTask list" where
  "ex_tasks =
     [mk_task ''users'' ''user2'' [(''name'', ''Alice'')] [5, 0],
      mk_task ''users'' ''user1'' [(''name'', ''Alice'')] [1, 0],
      mk_task ''users'' ''user3'' [(''name'', ''Bob'')] [2, 0]]"

definition ex_tables :: tables where
  "ex_tables = the_tables (processAll Map.empty ex_tasks)"

text \<open>The first of these inserts alone, and an update of \<open>user1\<close> after the three.\<close>

definition ex_first :: tables where
  "ex_first =
     the_tables (processInsert Map.empty (mk_task ''users'' ''user2'' [(''name'', ''Alice'')] [5, 0]))"

definition ex_update :: InsertTask where
  "ex_update = mk_task ''users'' ''user1'' [(''name'', ''Bob'')] [0, 1]"

definition ex_updated :: tables where
  "ex_updated = the_tables (processInsert ex_tables ex_update)"

text \<open>An insert of \<open>user1\<close> named Alice, then an update that renames it Bob.\<close>

definition stale_tasks :: "InsertTask list" where
  "stale_tasks =
     [mk_task ''users'' ''user1'' [(''name'', ''Alice'')] [1, 0],
      mk_task ''users'' ''user1'' [(''name'', ''Bob'')] [1, 0]]"

definition ex_stale :: tables where
  "ex_stale = the_tables (processAll Map.empty stale_tasks)"

text \<open>
  Inserts of three new ids into \<open>users\<close>, with an insert into another table and an update
  of \<open>user2\<close> in between.
\<close>

definition run_tasks :: "InsertTask list" where
  "run_tasks =
     [mk_task ''users'' ''user2'' [(''name'', ''Alice'')] [5, 0],
      mk_task ''orders'' ''o1'' [] [1],
      mk_task ''users'' ''user1'' [(''name'', ''Alice'')] [1, 0],
      mk_task ''users'' ''user2'' [(''name'', ''Ann'')] [4, 0],
      mk_task ''users'' ''user3'' [(''name'', ''Bob'')] [2, 0]]"

definition ex_run :: tables where
  "ex_run = the_tables (processAll Map.empty run_tasks)"

text \<open>
  A restart from a snapshot with one record and an index file that still holds a second
  point, at label 7, which no record carries.
\<close>

definition ex_snapshot :: "(string \<times> Record) list" where
  "ex_snapshot =
     [(''user1'', \<lparr>rfields = [(''name'', ''Alice'')], embedding = [1, 0], label = 0\<rparr>)]"

definition ex_index :: ann where
  "ex_index = \<lparr>adim = 2, points = [(0, [1, 0]), (7, [3, 0])], deleted = {}\<rparr>"

definition ex_loaded :: tables where
  "ex_loaded = loadTable Map.empty ''users'' (Some ex_snapshot) (Some ex_index)"

text \<open>
  The state that follows the delete of \<open>user1\<close> from the three users, when the loop of
  lines 301-307 reads the fields that the erased record had.
\<close>

definition ex_deleted :: tables where
  "ex_deleted = remove_reading [(''name'', ''Alice'')] ex_tables ''users'' ''user1''"

text \<open>
  A restart without an index file: the table that a fresh engine loads from the snapshot
  that \<open>saveTable\<close> writes.
\<close>

definition reload :: "tables \<Rightarrow> string \<Rightarrow> Table" where
  "reload tbls tname =
     table_at (loadTable Map.empty tname (Some (saveTable tbls tname)) None) tname"

text \<open>A table whose first record in key order has an empty embedding.\<close>

definition dim_tasks :: "InsertTask list" where
  "dim_tasks = [mk_task ''docs'' ''a'' [] [], mk_task ''docs'' ''b'' [] [1, 2]]"

definition ex_dims :: tables where
  "ex_dims = the_tables (processAll Map.empty dim_tasks)"

text \<open>A snapshot file in which the first record carries the greatest label, \<open>2^64 - 1\<close>.\<close>

definition wrap_snapshot :: "(string \<times> Record) list" where
  "wrap_snapshot =
     [(''a'', \<lparr>rfields = [], embedding = [1], label = - 1\<rparr>),
      (''b'', \<lparr>rfields = [], embedding = [1], label = 5\<rparr>)]"

definition ex_wrap :: tables where
  "ex_wrap = loadTable Map.empty ''docs'' (Some wrap_snapshot) None"

text \<open>
  A snapshot file whose only record carries the label \<open>2^64 - 2\<close>, and two inserts of new
  record ids after the restart from it.
\<close>

definition high_snapshot :: "(string \<times> Record) list" where
  "high_snapshot = [(''a'', \<lparr>rfields = [], embedding = [1], label = - 2\<rparr>)]"

definition ex_high :: tables where
  "ex_high = loadTable Map.empty ''docs'' (Some high_snapshot) None"

definition high_tasks :: "InsertTask list" where
  "high_tasks = [mk_task ''docs'' ''b'' [] [1], mk_task ''docs'' ''c'' [] [1]]"

text \<open>
  A snapshot file in which the last record in key order carries the greatest label,
  \<open>2^64 - 1\<close>, and the first the label 0.
\<close>

definition reuse_snapshot :: "(string \<times> Record) list" where
  "reuse_snapshot =
     [(''a'', \<lparr>rfields = [], embedding = [1], label = 0\<rparr>),
      (''b'', \<lparr>rfields = [], embedding = [1], label = - 1\<rparr>)]"

definition ex_reuse :: tables where
  "ex_reuse = loadTable Map.empty ''docs'' (Some reuse_snapshot) None"

section \<open>Theorems\<close>

subsection \<open>Evaluating the example runs\<close>

lemma the_tables_Inr:
  "(case x of Inl e \<Rightarrow> False | Inr t \<Rightarrow> True) \<Longrightarrow> x = Inr (the_tables x)"
  by (cases x) (simp_all add: the_tables_def)

lemma ex_tables_run: "processAll Map.empty ex_tasks = Inr ex_tables"
  unfolding ex_tables_def by (rule the_tables_Inr) code_simp

subsection \<open>queryField (C9)\<close>

lemma sorted_list_of_fset_strict: "sorted_wrt (<) (sorted_list_of_fset S)"
  by (simp add: sorted_list_of_fset.rep_eq)

text \<open>
  C9. For every table, field and value, \<open>queryField\<close> returns exactly the ids of the set
  \<open>fieldIndex[field][value]\<close>, each once, in strictly ascending lexicographic order, and it
  returns the empty list when the table, the field or the value is absent.
\<close>

theorem queryField_bucket_sorted:
  "(\<forall>table fit vit.
      tbls tname = Some table \<and> fieldIndex table field = Some fit \<and> fit val = Some vit \<longrightarrow>
        fset_of_list (queryField tbls tname field val) = vit
        \<and> sorted_wrt (<) (queryField tbls tname field val))
   \<and> (tbls tname = None \<longrightarrow> queryField tbls tname field val = [])
   \<and> (\<forall>table. tbls tname = Some table \<and> fieldIndex table field = None \<longrightarrow>
         queryField tbls tname field val = [])
   \<and> (\<forall>table fit. tbls tname = Some table \<and> fieldIndex table field = Some fit
         \<and> fit val = None \<longrightarrow> queryField tbls tname field val = [])"
  by (simp add: queryField_def sorted_list_of_fset_strict)

theorem queryField_bucket_sorted_witness:
  "(\<exists>table fit. ex_tables ''users'' = Some table \<and> fieldIndex table ''name'' = Some fit
       \<and> fit ''Alice'' = Some {|''user1'', ''user2''|})
   \<and> queryField ex_tables ''users'' ''name'' ''Alice'' = [''user1'', ''user2'']
   \<and> sorted_wrt (<) (queryField ex_tables ''users'' ''name'' ''Alice'')
   \<and> ex_tables ''orders'' = None
   \<and> queryField ex_tables ''orders'' ''name'' ''Alice'' = []"
proof -
  have "case ex_tables ''users'' of
          None \<Rightarrow> False
        | Some t \<Rightarrow> (case fieldIndex t ''name'' of
                       None \<Rightarrow> False
                     | Some fit \<Rightarrow> fit ''Alice'' = Some {|''user1'', ''user2''|})"
    by code_simp
  then obtain table fit where h: "ex_tables ''users'' = Some table"
      "fieldIndex table ''name'' = Some fit" "fit ''Alice'' = Some {|''user1'', ''user2''|}"
    by (auto split: option.splits)
  have n: "ex_tables ''orders'' = None"
    by code_simp
  have q: "queryField ex_tables ''users'' ''name'' ''Alice'' = [''user1'', ''user2'']"
    by code_simp
  show ?thesis
    using queryField_bucket_sorted[of ex_tables "''users''" "''name''" "''Alice''"]
      queryField_bucket_sorted[of ex_tables "''orders''" "''name''" "''Alice''"] h n q
    by auto
qed

subsection \<open>The priority queue is drained greatest pair first\<close>

lemma sort_remove1_Max:
  fixes q :: "('a::linorder) list"
  assumes "q \<noteq> []"
  shows "sort q = sort (remove1 (Max (set q)) q) @ [Max (set q)]"
proof -
  let ?M = "Max (set q)"
  have M: "?M \<in> set q" using assms by simp
  have le: "\<forall>x \<in> set (remove1 ?M q). x \<le> ?M"
    by (meson List.finite_set Max_ge notin_set_remove1)
  have "mset (sort (remove1 ?M q) @ [?M]) = mset q"
    using M by simp
  moreover have "sorted (sort (remove1 ?M q) @ [?M])"
    using le by (simp add: sorted_append)
  ultimately show ?thesis
    by (metis properties_for_sort)
qed

lemma drain_eq:
  "drain q m acc = acc @ List.map_filter (\<lambda>p. m (snd p)) (rev (sort q))"
proof (induction q m acc rule: drain.induct)
  case (1 labels l2i result)
  show ?case
  proof (cases "labels = []")
    case True
    then show ?thesis by (subst drain.simps) (simp add: List.map_filter_simps)
  next
    case False
    have s: "sort labels = sort (pq_pop labels) @ [pq_top labels]"
      unfolding pq_pop_def pq_top_def using False by (rule sort_remove1_Max)
    show ?thesis
      using False "1.IH"[OF False]
      by (subst drain.simps) (auto simp: s List.map_filter_simps split: option.splits)
  qed
qed

subsection \<open>Ids returned by the ANN queries are live (C10)\<close>

lemma labels_live_new: "labels_live new_Table"
  by (simp add: labels_live_def new_Table_def)

lemma labels_liveD:
  "labels_live t \<Longrightarrow> labelToID t l = Some rid \<Longrightarrow> \<exists>r. map_of (records t) rid = Some r \<and> label r = l"
  by (simp add: labels_live_def)

lemma upsert_labels_live:
  assumes "labels_live t" "upsert t task = Inr t'"
  shows "labels_live t'"
  unfolding labels_live_def
proof (intro allI impI)
  fix l x
  assume h: "labelToID t' l = Some x"
  let ?rid = "recordID task"
  show "\<exists>r. map_of (records t') x = Some r \<and> label r = l"
  proof (cases "map_of (records t) ?rid")
    case None
    have t': "labelToID t' = (labelToID t)(nextLabel t \<mapsto> ?rid)"
      "map_of (records t') = (map_of (records t))(?rid \<mapsto>
          \<lparr>rfields = task_fields task, embedding = task_embedding task, label = nextLabel t\<rparr>)"
      using assms(2) None
      by (auto simp: upsert_def Let_def update_conv' split: sum.splits)
    show ?thesis
    proof (cases "l = nextLabel t")
      case True
      then show ?thesis using h by (simp add: t')
    next
      case False
      then have "labelToID t l = Some x" using h by (simp add: t')
      from labels_liveD[OF assms(1) this] obtain r0
        where r0: "map_of (records t) x = Some r0" "label r0 = l" by blast
      then have "x \<noteq> ?rid" using None by auto
      then show ?thesis using r0 by (simp add: t')
    qed
  next
    case (Some r)
    have t': "labelToID t' = (labelToID t)(label r \<mapsto> ?rid)"
      "map_of (records t') = (map_of (records t))(?rid \<mapsto>
          r\<lparr>rfields := task_fields task, embedding := task_embedding task\<rparr>)"
      using assms(2) Some
      by (auto simp: upsert_def Let_def update_conv' split: sum.splits)
    show ?thesis
    proof (cases "l = label r")
      case True
      then show ?thesis using h by (simp add: t')
    next
      case False
      then have "labelToID t l = Some x" using h by (simp add: t')
      from labels_liveD[OF assms(1) this] obtain r0
        where r0: "map_of (records t) x = Some r0" "label r0 = l" by blast
      then have "x \<noteq> ?rid" using Some False by auto
      then show ?thesis using r0 by (simp add: t')
    qed
  qed
qed

lemma load_item_records:
  "map_of (records (load_item item t)) = (map_of (records t))(fst item \<mapsto> snd item)"
  by (simp add: load_item_def Let_def update_conv')

lemma load_item_labelToID:
  "labelToID (load_item item t) = (labelToID t)(label (snd item) \<mapsto> fst item)"
  by (simp add: load_item_def Let_def)

text \<open>A snapshot item whose id is not stored yet keeps the invariant.\<close>

lemma load_item_labels_live:
  assumes "labels_live t" "map_of (records t) (fst item) = None"
  shows "labels_live (load_item item t)"
  unfolding labels_live_def
proof (intro allI impI)
  fix l x
  assume h: "labelToID (load_item item t) l = Some x"
  show "\<exists>r. map_of (records (load_item item t)) x = Some r \<and> label r = l"
  proof (cases "l = label (snd item)")
    case True
    then show ?thesis using h by (simp add: load_item_records load_item_labelToID)
  next
    case False
    then have "labelToID t l = Some x" using h by (simp add: load_item_labelToID)
    from labels_liveD[OF assms(1) this] obtain r0
      where r0: "map_of (records t) x = Some r0" "label r0 = l" by blast
    then have "x \<noteq> fst item" using assms(2) by auto
    then show ?thesis using r0 by (simp add: load_item_records)
  qed
qed

lemma fold_load_item_labels_live:
  "labels_live t \<Longrightarrow> distinct (map fst j) \<Longrightarrow>
   \<forall>item \<in> set j. map_of (records t) (fst item) = None \<Longrightarrow>
     labels_live (fold load_item j t)"
proof (induction j arbitrary: t)
  case Nil
  then show ?case by simp
next
  case (Cons item j)
  have l: "labels_live (load_item item t)"
    using Cons.prems(1,3) by (simp add: load_item_labels_live)
  have d: "distinct (map fst j)"
    using Cons.prems(2) by simp
  have f: "\<forall>x \<in> set j. map_of (records (load_item item t)) (fst x) = None"
  proof
    fix x assume x: "x \<in> set j"
    then have "fst x \<noteq> fst item"
      using Cons.prems(2) by (metis distinct.simps(2) image_eqI list.simps(9) set_map)
    then show "map_of (records (load_item item t)) (fst x) = None"
      using Cons.prems(3) x by (simp add: load_item_records)
  qed
  show ?case
    using Cons.IH[OF l d f] by simp
qed

text \<open>
  Lines 297-298 take the record and the entry of its label out together, so no entry of
  \<^verbatim>\<open>labelToID\<close> is left pointing at the erased id, whatever the loop then reads.
\<close>

lemma remove_reading_labels_live:
  assumes "all_labels_live tbls"
  shows "all_labels_live (remove_reading fs tbls tname rid)"
proof (cases "tbls tname")
  case None
  then show ?thesis using assms by (simp add: remove_reading_def)
next
  case (Some t)
  show ?thesis
  proof (cases "map_of (records t) rid")
    case None
    then show ?thesis using assms Some by (simp add: remove_reading_def)
  next
    case (Some r)
    have l: "labels_live t"
      using assms \<open>tbls tname = Some t\<close> by (simp add: all_labels_live_def)
    have "labels_live (t\<lparr>records := AList.delete rid (records t),
                         labelToID := (labelToID t)(label r := None),
                         fieldIndex := fi, index := ix\<rparr>)" for fi ix
      unfolding labels_live_def
    proof (intro allI impI)
      fix l x
      assume "labelToID (t\<lparr>records := AList.delete rid (records t),
                            labelToID := (labelToID t)(label r := None),
                            fieldIndex := fi, index := ix\<rparr>) l = Some x"
      then have ne: "l \<noteq> label r" and lx: "labelToID t l = Some x"
        by (auto split: if_splits)
      from l lx obtain r0 where r0: "map_of (records t) x = Some r0" "label r0 = l"
        by (auto simp: labels_live_def)
      have "x \<noteq> rid"
        using r0 Some ne by auto
      then show "\<exists>r'. map_of (records (t\<lparr>records := AList.delete rid (records t),
                            labelToID := (labelToID t)(label r := None),
                            fieldIndex := fi, index := ix\<rparr>)) x = Some r' \<and> label r' = l"
        using r0 by (simp add: delete_conv')
    qed
    then show ?thesis
      using assms \<open>tbls tname = Some t\<close> Some
      by (simp add: remove_reading_def Let_def all_labels_live_def)
  qed
qed

lemma remove_reading_not_live: "\<not> live (remove_reading fs tbls tname rid) tname rid"
  by (auto simp: live_def remove_reading_def Let_def delete_conv' split: option.splits)

text \<open>The delete of an absent record is the no-op that \<open>remove\<close> returns.\<close>

lemma remove_Inr: "remove tbls tname rid = Inr tbls' \<Longrightarrow> remove_reading fs tbls tname rid = tbls'"
  by (auto simp: remove_def remove_reading_def deref_def Let_def delete_conv'
           split: option.splits sum.splits)

lemma reachable_labels_live: "reachable tbls \<Longrightarrow> all_labels_live tbls"
proof (induction rule: reachable.induct)
  case start
  then show ?case by (simp add: all_labels_live_def)
next
  case (load tbls snap tname ixf)
  have l: "labels_live (fold load_item j new_Table)" if "distinct (map fst j)" for j
    by (rule fold_load_item_labels_live[OF labels_live_new that]) (simp add: new_Table_def)
  then have "labels_live (fold load_item j new_Table\<lparr>index := x\<rparr>)"
    if "distinct (map fst j)" for j x
    using that by (simp add: labels_live_def)
  with load l show ?case
    by (auto simp: all_labels_live_def loadTable_def Let_def split: option.splits if_splits)
next
  case (upsert tbls task tbls')
  have "labels_live (table_at tbls1 (tableName task))" if "all_labels_live tbls1" for tbls1
    using that
    by (auto simp: table_at_def all_labels_live_def labels_live_new split: option.splits)
  moreover have "all_labels_live (createTable tbls n d)" for n d
    using upsert.IH
    by (auto simp: createTable_def all_labels_live_def labels_live_def new_Table_def)
  ultimately show ?case
    using upsert
    by (auto simp: processInsert_def Let_def all_labels_live_def split: sum.splits if_splits
             dest!: upsert_labels_live[rotated])
next
  case (delete tbls fs tname rid)
  then show ?case by (simp add: remove_reading_labels_live)
qed

lemma processAll_reachable:
  "reachable tbls \<Longrightarrow> processAll tbls ts = Inr tbls' \<Longrightarrow> reachable tbls'"
  by (induction ts arbitrary: tbls) (auto split: sum.splits intro: reachable.upsert)

lemma searchKnn_sorted: "searchKnn a q k = Inr labels \<Longrightarrow> sorted labels"
  by (auto simp: searchKnn_def sorted_wrt_take split: if_splits)

lemma set_map_filter: "set (List.map_filter f xs) = {y. \<exists>x \<in> set xs. f x = Some y}"
  by (induction xs) (auto simp: List.map_filter_simps split: option.splits)

lemma queryEmbedding_eq:
  assumes "tbls tname = Some t" "index t = Some a"
    "searchKnn a q (size_t_of_int topK) = Inr labels"
  shows "queryEmbedding tbls tname q topK
         = Inr (List.map_filter (\<lambda>p. labelToID t (snd p)) (rev labels))"
  using assms searchKnn_sorted[OF assms(3)]
  by (simp add: queryEmbedding_def drain_eq sort_key_id_if_sorted)

lemma queryEmbedding_ran:
  assumes "queryEmbedding tbls tname q topK = Inr ids" "rid \<in> set ids"
  shows "\<exists>t l. tbls tname = Some t \<and> labelToID t l = Some rid"
  using assms
  by (auto simp: queryEmbedding_def drain_eq set_map_filter split: option.splits sum.splits)

lemma queryHybrid_subset:
  assumes "queryHybrid tbls tname field val q topK = Inr ids" "rid \<in> set ids"
  shows "\<exists>cands. queryEmbedding tbls tname q (topK * 10) = Inr cands \<and> rid \<in> set cands"
  using assms
  by (auto simp: queryHybrid_def Let_def split: if_splits sum.splits dest: in_set_takeD)

lemma queries_live:
  assumes "reachable tbls"
  shows "queryEmbedding tbls tname q topK = Inr ids \<Longrightarrow> rid \<in> set ids \<Longrightarrow> live tbls tname rid"
    and "queryHybrid tbls tname field val q topK = Inr ids \<Longrightarrow> rid \<in> set ids
           \<Longrightarrow> live tbls tname rid"
proof -
  have inv: "all_labels_live tbls"
    using assms by (rule reachable_labels_live)
  have a: "live tbls tname rid" if "queryEmbedding tbls tname q k = Inr ids" "rid \<in> set ids"
    for ids rid k
    using queryEmbedding_ran[OF that] inv
    by (fastforce simp: live_def all_labels_live_def dest: labels_liveD)
  show "queryEmbedding tbls tname q topK = Inr ids \<Longrightarrow> rid \<in> set ids \<Longrightarrow> live tbls tname rid"
    by (rule a)
  show "queryHybrid tbls tname field val q topK = Inr ids \<Longrightarrow> rid \<in> set ids
          \<Longrightarrow> live tbls tname rid"
    using queryHybrid_subset a by blast
qed

text \<open>
  C10. In every reachable engine state, every record id that \<open>queryEmbedding\<close> returns, and
  so every id that \<open>queryHybrid\<close> returns, is the id of a record held in the table's
  \<open>records\<close>. The result of \<open>queryEmbedding\<close> is the list of the ids that \<open>labelToID\<close> has for
  the labels found, read from the far end of the search result; a label with no entry in
  \<open>labelToID\<close> contributes nothing. The reachable states include those that follow a
  delete, and in the state that follows the delete of a record id, whatever field list
  its clean-up loop has read, neither query returns that id.
\<close>

theorem queryEmbedding_ids_live:
  assumes "reachable tbls"
  shows "(\<forall>ids rid. queryEmbedding tbls tname q topK = Inr ids \<and> rid \<in> set ids
            \<longrightarrow> live tbls tname rid)
       \<and> (\<forall>ids rid. queryHybrid tbls tname field val q topK = Inr ids \<and> rid \<in> set ids
            \<longrightarrow> live tbls tname rid)
       \<and> (\<forall>t a labels. tbls tname = Some t \<and> index t = Some a
              \<and> searchKnn a q (size_t_of_int topK) = Inr labels
            \<longrightarrow> queryEmbedding tbls tname q topK
                  = Inr (List.map_filter (\<lambda>p. labelToID t (snd p)) (rev labels)))
       \<and> (\<forall>fs rid ids.
             queryEmbedding (remove_reading fs tbls tname rid) tname q topK = Inr ids
             \<or> queryHybrid (remove_reading fs tbls tname rid) tname field val q topK = Inr ids
            \<longrightarrow> rid \<notin> set ids)"
proof -
  have d: "reachable (remove_reading fs tbls tname rid)" for fs rid
    using assms by (rule reachable.delete)
  have c: "rid \<notin> set ids"
    if "queryEmbedding (remove_reading fs tbls tname rid) tname q topK = Inr ids
        \<or> queryHybrid (remove_reading fs tbls tname rid) tname field val q topK = Inr ids"
    for fs rid ids
    using that queries_live[OF d] remove_reading_not_live by blast
  have a: "\<forall>ids rid. queryEmbedding tbls tname q topK = Inr ids \<and> rid \<in> set ids
             \<longrightarrow> live tbls tname rid"
    using queries_live(1)[OF assms] by blast
  have b: "\<forall>ids rid. queryHybrid tbls tname field val q topK = Inr ids \<and> rid \<in> set ids
             \<longrightarrow> live tbls tname rid"
    using queries_live(2)[OF assms] by blast
  have e: "\<forall>t a labels. tbls tname = Some t \<and> index t = Some a
              \<and> searchKnn a q (size_t_of_int topK) = Inr labels
            \<longrightarrow> queryEmbedding tbls tname q topK
                  = Inr (List.map_filter (\<lambda>p. labelToID t (snd p)) (rev labels))"
    using queryEmbedding_eq by blast
  show ?thesis
    using a b e c by blast
qed

theorem queryEmbedding_ids_live_witness:
  "reachable ex_loaded
   \<and> searchKnn (ex_index\<lparr>adim := 2\<rparr>) [0, 0] (size_t_of_int 2) = Inr [(1, 0), (9, 7)]
   \<and> queryEmbedding ex_loaded ''users'' [0, 0] 2 = Inr [''user1'']
   \<and> live ex_loaded ''users'' ''user1''
   \<and> reachable ex_tables
   \<and> queryEmbedding ex_tables ''users'' [0, 0] 3 = Inr [''user2'', ''user3'', ''user1'']
   \<and> queryEmbedding ex_deleted ''users'' [0, 0] 3 = Inr [''user2'', ''user3'']
   \<and> queryHybrid ex_deleted ''users'' ''name'' ''Alice'' [0, 0] 3 = Inr [''user2'']
   \<and> live ex_deleted ''users'' ''user2'' \<and> live ex_deleted ''users'' ''user3''
   \<and> \<not> live ex_deleted ''users'' ''user1''"
proof -
  have r: "reachable ex_loaded"
    unfolding ex_loaded_def
    by (rule reachable.load[OF reachable.start]) (simp add: ex_snapshot_def)
  have s: "searchKnn (ex_index\<lparr>adim := 2\<rparr>) [0, 0] (size_t_of_int 2) = Inr [(1, 0), (9, 7)]"
    by code_simp
  have q: "queryEmbedding ex_loaded ''users'' [0, 0] 2 = Inr [''user1'']"
    by code_simp
  have r': "reachable ex_tables"
    by (rule processAll_reachable[OF reachable.start ex_tables_run])
  have q0: "queryEmbedding ex_tables ''users'' [0, 0] 3 = Inr [''user2'', ''user3'', ''user1'']"
    by code_simp
  have q1: "queryEmbedding ex_deleted ''users'' [0, 0] 3 = Inr [''user2'', ''user3'']"
    by code_simp
  have q2: "queryHybrid ex_deleted ''users'' ''name'' ''Alice'' [0, 0] 3 = Inr [''user2'']"
    by code_simp
  have l: "live ex_deleted ''users'' ''user2''" "live ex_deleted ''users'' ''user3''"
    "\<not> live ex_deleted ''users'' ''user1''"
    by code_simp+
  show ?thesis
    using queryEmbedding_ids_live[OF r, of "''users''" "[0, 0]" 2 "''name''" "''Alice''"]
      queryEmbedding_ids_live[OF r', of "''users''" "[0, 0]" 3 "''name''" "''Alice''"]
      r s q r' q0 q1 q2 l
    unfolding ex_deleted_def [symmetric]
    by simp
qed

subsection \<open>Label allocation (C6)\<close>

lemma addPoint_points:
  "addPoint a v l = Inr a' \<Longrightarrow>
     map_of (points a') l = Some (take (adim a') v) \<and> adim a' = adim a"
  by (auto simp: addPoint_def update_conv' split: if_splits)

lemma upsert_label:
  assumes "upsert t task = Inr t'"
  shows "\<exists>r' a'. map_of (records t') (recordID task) = Some r' \<and> index t' = Some a'
     \<and> rfields r' = task_fields task \<and> embedding r' = task_embedding task
     \<and> labelToID t' (label r') = Some (recordID task)
     \<and> map_of (points a') (label r') = Some (take (adim a') (task_embedding task))
     \<and> (map_of (records t) (recordID task) = None \<longrightarrow>
          label r' = nextLabel t \<and> nextLabel t' = nextLabel t + 1)
     \<and> (\<forall>r. map_of (records t) (recordID task) = Some r \<longrightarrow>
          label r' = label r \<and> nextLabel t' = nextLabel t)"
  using assms
  by (auto simp: upsert_def Let_def update_conv' split: sum.splits option.splits
           dest!: addPoint_points)

lemma upsert_returns:
  "(\<exists>t'. upsert t task = Inr t')
     \<longleftrightarrow> (\<forall>a. index t = Some a \<longrightarrow> adim a \<le> length (task_embedding task))"
  by (auto simp: upsert_def Let_def addPoint_def ann_new_def split: option.splits)

lemma processInsert_returns:
  "(\<exists>tbls'. processInsert tbls task = Inr tbls')
     \<longleftrightarrow> (\<forall>a. index (table_at tbls (tableName task)) = Some a
            \<longrightarrow> adim a \<le> length (task_embedding task))"
proof -
  let ?tn = "tableName task"
  let ?tbls1 = "if tbls ?tn = None
                then createTable tbls ?tn (length (task_embedding task)) else tbls"
  have same: "index (table_at ?tbls1 ?tn) = index (table_at tbls ?tn)"
    by (auto simp: table_at_def createTable_def new_Table_def)
  have "(\<exists>tbls'. processInsert tbls task = Inr tbls')
        \<longleftrightarrow> (\<exists>t'. upsert (table_at ?tbls1 ?tn) task = Inr t')"
    by (auto simp: processInsert_def Let_def split: sum.splits)
  then show ?thesis
    unfolding upsert_returns same .
qed

lemma processInsert_stored:
  assumes "processInsert tbls task = Inr tbls'"
  shows "\<exists>t' r' a'. tbls' (tableName task) = Some t'
     \<and> map_of (records t') (recordID task) = Some r' \<and> index t' = Some a'
     \<and> labelToID t' (label r') = Some (recordID task)
     \<and> map_of (points a') (label r') = Some (take (adim a') (task_embedding task))
     \<and> (map_of (records (table_at tbls (tableName task))) (recordID task) = None \<longrightarrow>
          label r' = nextLabel (table_at tbls (tableName task))
          \<and> nextLabel t' = nextLabel (table_at tbls (tableName task)) + 1)
     \<and> (\<forall>r. map_of (records (table_at tbls (tableName task))) (recordID task) = Some r \<longrightarrow>
          label r' = label r \<and> nextLabel t' = nextLabel (table_at tbls (tableName task)))"
proof -
  let ?tn = "tableName task"
  let ?tbls1 = "if tbls ?tn = None
                then createTable tbls ?tn (length (task_embedding task)) else tbls"
  obtain t' where u: "upsert (table_at ?tbls1 ?tn) task = Inr t'"
    and t': "tbls' = ?tbls1(?tn \<mapsto> t')"
    using assms by (auto simp: processInsert_def Let_def split: sum.splits)
  have same: "records (table_at ?tbls1 ?tn) = records (table_at tbls ?tn)"
       "nextLabel (table_at ?tbls1 ?tn) = nextLabel (table_at tbls ?tn)"
    by (auto simp: table_at_def createTable_def new_Table_def)
  show ?thesis
    using upsert_label[OF u] unfolding same t' by auto
qed

text \<open>
  C6. The worker's upsert returns unless the table already has an index and the task's
  embedding is shorter than the index's dimension (the point is then read past the end of
  the vector). When it returns, the table holds the record and an index with the record's
  point at the record's label, \<open>labelToID\<close> maps that label to the record id, and: if the
  record id was new in the table, the record's label is the old \<open>nextLabel\<close> and \<open>nextLabel\<close>
  has grown by one; if the record id was already stored, the record keeps its stored
  label and \<open>nextLabel\<close> is unchanged. (A table that did not exist counts as the fresh
  table, with \<open>nextLabel = 0\<close>.)
\<close>

theorem processInsert_label:
  "((\<exists>tbls'. processInsert tbls task = Inr tbls')
      \<longleftrightarrow> (\<forall>a. index (table_at tbls (tableName task)) = Some a
             \<longrightarrow> adim a \<le> length (task_embedding task)))
   \<and> (\<forall>tbls'. processInsert tbls task = Inr tbls' \<longrightarrow>
        (\<exists>t' r' a'. tbls' (tableName task) = Some t'
           \<and> map_of (records t') (recordID task) = Some r' \<and> index t' = Some a'
           \<and> labelToID t' (label r') = Some (recordID task)
           \<and> map_of (points a') (label r') = Some (take (adim a') (task_embedding task))
           \<and> (map_of (records (table_at tbls (tableName task))) (recordID task) = None \<longrightarrow>
                label r' = nextLabel (table_at tbls (tableName task))
                \<and> nextLabel t' = nextLabel (table_at tbls (tableName task)) + 1)
           \<and> (\<forall>r. map_of (records (table_at tbls (tableName task))) (recordID task) = Some r
                \<longrightarrow> label r' = label r
                    \<and> nextLabel t' = nextLabel (table_at tbls (tableName task)))))"
  using processInsert_returns[of tbls task] processInsert_stored[of tbls task] by blast

text \<open>
  The witness: the first insert into a fresh engine gets label 0 and leaves \<open>nextLabel = 1\<close>;
  after three inserts \<open>user1\<close> has label 1 and \<open>nextLabel\<close> is 3, and an update of \<open>user1\<close>
  keeps both.
\<close>

theorem processInsert_label_witness:
  "processInsert Map.empty (mk_task ''users'' ''user2'' [(''name'', ''Alice'')] [5, 0])
     = Inr ex_first
   \<and> (\<exists>t' r'. ex_first ''users'' = Some t' \<and> map_of (records t') ''user2'' = Some r'
          \<and> label r' = 0 \<and> nextLabel t' = 1)
   \<and> processInsert ex_tables ex_update = Inr ex_updated
   \<and> (\<exists>r. map_of (records (table_at ex_tables ''users'')) ''user1'' = Some r \<and> label r = 1)
   \<and> nextLabel (table_at ex_tables ''users'') = 3
   \<and> (\<exists>t' r' a'. ex_updated ''users'' = Some t' \<and> map_of (records t') ''user1'' = Some r'
          \<and> index t' = Some a' \<and> label r' = 1 \<and> nextLabel t' = 3
          \<and> map_of (points a') 1 = Some (take (adim a') [0, 1]))"
proof -
  let ?first = "mk_task ''users'' ''user2'' [(''name'', ''Alice'')] [5, 0]"
  have p0: "processInsert Map.empty ?first = Inr ex_first"
    unfolding ex_first_def by (rule the_tables_Inr) code_simp
  have new: "map_of (records (table_at Map.empty (tableName ?first))) (recordID ?first) = None"
      "nextLabel (table_at Map.empty (tableName ?first)) = 0"
    by (simp_all add: table_at_def new_Table_def)
  have p: "processInsert ex_tables ex_update = Inr ex_updated"
    unfolding ex_updated_def by (rule the_tables_Inr) code_simp
  have "case map_of (records (table_at ex_tables ''users'')) ''user1'' of
          None \<Rightarrow> False | Some r \<Rightarrow> label r = 1"
    by code_simp
  then obtain r where old: "map_of (records (table_at ex_tables ''users'')) ''user1'' = Some r"
      "label r = 1"
    by (auto split: option.splits)
  have nl: "nextLabel (table_at ex_tables ''users'') = 3"
    by code_simp
  have names: "tableName ex_update = ''users''" "recordID ex_update = ''user1''"
      "task_embedding ex_update = [0, 1]" "tableName ?first = ''users''"
      "recordID ?first = ''user2''"
    by (simp_all add: ex_update_def mk_task_def)
  have first: "\<exists>t' r' a'. ex_first (tableName ?first) = Some t'
           \<and> map_of (records t') (recordID ?first) = Some r' \<and> index t' = Some a'
           \<and> labelToID t' (label r') = Some (recordID ?first)
           \<and> map_of (points a') (label r') = Some (take (adim a') (task_embedding ?first))
           \<and> (map_of (records (table_at Map.empty (tableName ?first))) (recordID ?first) = None
                \<longrightarrow> label r' = nextLabel (table_at Map.empty (tableName ?first))
                    \<and> nextLabel t' = nextLabel (table_at Map.empty (tableName ?first)) + 1)
           \<and> (\<forall>r. map_of (records (table_at Map.empty (tableName ?first))) (recordID ?first)
                     = Some r
                \<longrightarrow> label r' = label r
                    \<and> nextLabel t' = nextLabel (table_at Map.empty (tableName ?first)))"
    using processInsert_label[of Map.empty ?first] p0 by blast
  have second: "\<exists>t' r' a'. ex_updated (tableName ex_update) = Some t'
           \<and> map_of (records t') (recordID ex_update) = Some r' \<and> index t' = Some a'
           \<and> labelToID t' (label r') = Some (recordID ex_update)
           \<and> map_of (points a') (label r')
               = Some (take (adim a') (task_embedding ex_update))
           \<and> (map_of (records (table_at ex_tables (tableName ex_update))) (recordID ex_update)
                 = None
                \<longrightarrow> label r' = nextLabel (table_at ex_tables (tableName ex_update))
                    \<and> nextLabel t' = nextLabel (table_at ex_tables (tableName ex_update)) + 1)
           \<and> (\<forall>r. map_of (records (table_at ex_tables (tableName ex_update)))
                       (recordID ex_update) = Some r
                \<longrightarrow> label r' = label r
                    \<and> nextLabel t' = nextLabel (table_at ex_tables (tableName ex_update)))"
    using processInsert_label[of ex_tables ex_update] p by blast
  show ?thesis
    using first second p0 p new old nl
    unfolding names by auto
qed

subsection \<open>The order of queryEmbedding's result (C1)\<close>

text \<open>The bound of C1 holds for a \<open>topK\<close> that is not negative; the order does not.\<close>

lemma length_map_filter_le: "length (List.map_filter f xs) \<le> length xs"
  by (induction xs) (auto simp: List.map_filter_simps split: option.splits)

lemma searchKnn_length: "searchKnn a q k = Inr labels \<Longrightarrow> length labels \<le> k"
  by (auto simp: searchKnn_def split: if_splits)

lemma queryEmbedding_length:
  assumes "0 \<le> topK" and "topK < 2 ^ 64" and "queryEmbedding tbls tname q topK = Inr ids"
  shows "length ids \<le> nat topK"
proof (cases "\<exists>t a. tbls tname = Some t \<and> index t = Some a")
  case True
  then obtain t a where h: "tbls tname = Some t" "index t = Some a"
    by blast
  then obtain labels where l: "searchKnn a q (size_t_of_int topK) = Inr labels"
    using assms(3) by (auto simp: queryEmbedding_def split: sum.splits)
  have "queryEmbedding tbls tname q topK
        = Inr (List.map_filter (\<lambda>p. labelToID t (snd p)) (rev labels))"
    using h l by (rule queryEmbedding_eq)
  then have "ids = List.map_filter (\<lambda>p. labelToID t (snd p)) (rev labels)"
    using assms(3) by simp
  then have "length ids \<le> length labels"
    using length_map_filter_le[of "\<lambda>p. labelToID t (snd p)" "rev labels"] by simp
  then show ?thesis
    using searchKnn_length[OF l] assms(1,2) by (simp add: size_t_of_int_def)
next
  case False
  then show ?thesis
    using assms(3) by (auto simp: queryEmbedding_def split: option.splits)
qed

text \<open>
  C1. The claim: \<open>queryEmbedding\<close> returns at most \<open>topK\<close> ids ordered by L2 distance
  ascending, nearest first. At the query \<open>[0, 0]\<close> the three records of \<open>ex_tables\<close> lie at
  squared distances 25 (\<open>user2\<close>), 1 (\<open>user1\<close>) and 4 (\<open>user3\<close>). \<open>queryEmbedding\<close> finds the
  right ids but returns them farthest first: \<open>user3\<close> before \<open>user1\<close> for \<open>topK = 2\<close>, and
  \<open>user2\<close>, \<open>user3\<close>, \<open>user1\<close> for \<open>topK = 3\<close>. The loop of lines 340-344 pops a max-heap:
  by \<open>queryEmbedding_eq\<close> the result always follows the search result, which is sorted
  ascending (\<open>searchKnn_sorted\<close>), in reverse.
\<close>

theorem queryEmbedding_farthest_first:
  "map (\<lambda>(rid, r). (rid, L2Sqr [0, 0] (embedding r))) (records (table_at ex_tables ''users''))
     = [(''user2'', 25), (''user1'', 1), (''user3'', 4)]
   \<and> queryEmbedding ex_tables ''users'' [0, 0] 2 = Inr [''user3'', ''user1'']
   \<and> queryEmbedding ex_tables ''users'' [0, 0] 3 = Inr [''user2'', ''user3'', ''user1'']"
  by code_simp

subsection \<open>The field index after an update (C3)\<close>

text \<open>
  C3. The claim: in every reachable state \<open>fieldIndex[k][v]\<close> holds a record id exactly
  when the live record of that id has field \<open>k\<close> equal to \<open>v\<close>; an update leaves no stale
  entry. After the insert of \<open>user1\<close> with name Alice and its update to name Bob, the
  record's only field is name = Bob, yet \<open>queryField\<close> still finds \<open>user1\<close> under
  name = Alice: \<open>upsert\<close> adds the new entries and removes none.
\<close>

theorem fieldIndex_stale_after_update:
  "processAll Map.empty stale_tasks = Inr ex_stale
   \<and> map (\<lambda>(rid, r). (rid, rfields r)) (records (table_at ex_stale ''users''))
       = [(''user1'', [(''name'', ''Bob'')])]
   \<and> queryField ex_stale ''users'' ''name'' ''Alice'' = [''user1'']
   \<and> queryField ex_stale ''users'' ''name'' ''Bob'' = [''user1'']"
proof -
  have "processAll Map.empty stale_tasks = Inr ex_stale"
    unfolding ex_stale_def by (rule the_tables_Inr) code_simp
  moreover have "map (\<lambda>(rid, r). (rid, rfields r)) (records (table_at ex_stale ''users''))
       = [(''user1'', [(''name'', ''Bob'')])]"
    by code_simp
  moreover have "queryField ex_stale ''users'' ''name'' ''Alice'' = [''user1'']"
    by code_simp
  moreover have "queryField ex_stale ''users'' ''name'' ''Bob'' = [''user1'']"
    by code_simp
  ultimately show ?thesis by simp
qed

subsection \<open>remove (C4)\<close>

lemma remove_stored:
  "tbls tname = Some t \<Longrightarrow> map_of (records t) rid = Some r \<Longrightarrow>
     remove tbls tname rid = Inl UseAfterErase"
  by (simp add: remove_def deref_def Let_def delete_conv')

lemma remove_absent:
  "tbls tname = None \<or> (\<exists>t. tbls tname = Some t \<and> map_of (records t) rid = None)
     \<Longrightarrow> remove tbls tname rid = Inr tbls"
  by (auto simp: remove_def)

text \<open>
  C4. The claim: \<open>delete\<close> removes the record from \<open>records\<close> and \<open>labelToID\<close>, removes its id
  from \<open>fieldIndex[k][v]\<close> for each of its fields and marks its label deleted, and is a
  no-op when the table or the record is absent. The no-op half holds (\<open>remove_absent\<close>).
  For a stored record, here \<open>user1\<close> of \<open>ex_tables\<close> with the field name = Alice, line 297
  erases the record's node and line 301 reads the record's fields through the erased
  iterator: the fields to clean are read from a destroyed node, which is undefined
  behaviour (\<open>remove_stored\<close>: so for every stored record).
\<close>

theorem remove_use_after_erase:
  "map (\<lambda>(rid, r). (rid, rfields r)) (records (table_at ex_tables ''users''))
     = [(''user2'', [(''name'', ''Alice'')]), (''user1'', [(''name'', ''Alice'')]),
        (''user3'', [(''name'', ''Bob'')])]
   \<and> remove ex_tables ''users'' ''user1'' = Inl UseAfterErase"
proof -
  have "case remove ex_tables ''users'' ''user1'' of
          Inl e \<Rightarrow> e = UseAfterErase | Inr tbls \<Rightarrow> False"
    by code_simp
  then have "remove ex_tables ''users'' ''user1'' = Inl UseAfterErase"
    by (auto split: sum.splits)
  moreover have "map (\<lambda>(rid, r). (rid, rfields r)) (records (table_at ex_tables ''users''))
     = [(''user2'', [(''name'', ''Alice'')]), (''user1'', [(''name'', ''Alice'')]),
        (''user3'', [(''name'', ''Bob'')])]"
    by code_simp
  ultimately show ?thesis by simp
qed

subsection \<open>queryEmbedding and the query's length (C2)\<close>

text \<open>
  The claim C2 says that a query whose length differs from the table's \<open>dim\<close> fails with
  DimensionMismatch. The table \<open>users\<close> of \<open>ex_tables\<close> has \<open>dim = 2\<close>; a query of length 3
  returns a list.
\<close>

theorem queryEmbedding_no_dimension_check:
  "(\<exists>t. ex_tables ''users'' = Some t \<and> dim t = 2)
   \<and> length [0, 0, 7 :: real] \<noteq> 2
   \<and> queryEmbedding ex_tables ''users'' [0, 0, 7] 3 = Inr [''user2'', ''user3'', ''user1'']"
proof -
  have "case ex_tables ''users'' of None \<Rightarrow> False | Some t \<Rightarrow> dim t = 2"
    by code_simp
  then have "\<exists>t. ex_tables ''users'' = Some t \<and> dim t = 2"
    by (auto split: option.splits)
  moreover have "queryEmbedding ex_tables ''users'' [0, 0, 7] 3
                 = Inr [''user2'', ''user3'', ''user1'']"
    by code_simp
  ultimately show ?thesis by simp
qed

lemma searchKnn_take:
  "adim a \<le> length q \<Longrightarrow> searchKnn a (take (adim a) q) k = searchKnn a q k"
  by (simp add: searchKnn_def)

lemma searchKnn_Inr: "adim a \<le> length q \<Longrightarrow> \<exists>labels. searchKnn a q k = Inr labels"
  by (simp add: searchKnn_def)

text \<open>
  C2, amended. \<open>queryEmbedding\<close> compares the query's length with nothing and has no
  DimensionMismatch failure. For an existing table without an ANN index it returns the
  empty list; for one with an index and a query at least as long as the index's dimension
  it returns a list, the same list as for the query cut to that dimension. (A query
  shorter than the index's dimension is read past its end; nothing is stated for it.)
\<close>

theorem queryEmbedding_reads_adim:
  "(\<forall>t. tbls tname = Some t \<and> index t = None \<longrightarrow> queryEmbedding tbls tname q topK = Inr [])
   \<and> (\<forall>t a. tbls tname = Some t \<and> index t = Some a \<and> adim a \<le> length q \<longrightarrow>
         (\<exists>ids. queryEmbedding tbls tname q topK = Inr ids
                \<and> queryEmbedding tbls tname (take (adim a) q) topK = Inr ids))"
proof -
  have "\<exists>ids. queryEmbedding tbls tname q topK = Inr ids
                \<and> queryEmbedding tbls tname (take (adim a) q) topK = Inr ids"
    if h: "tbls tname = Some t" "index t = Some a" and len: "adim a \<le> length q" for t a
  proof -
    obtain labels where "searchKnn a q (size_t_of_int topK) = Inr labels"
      using searchKnn_Inr[OF len] by blast
    then show ?thesis
      using h len by (simp add: queryEmbedding_def searchKnn_take)
  qed
  then show ?thesis
    by (auto simp: queryEmbedding_def)
qed

theorem queryEmbedding_reads_adim_witness:
  "(\<exists>t a. ex_tables ''users'' = Some t \<and> index t = Some a \<and> adim a = 2)
   \<and> queryEmbedding ex_tables ''users'' [0, 0, 7] 3 = Inr [''user2'', ''user3'', ''user1'']
   \<and> queryEmbedding ex_tables ''users'' [0, 0] 3 = Inr [''user2'', ''user3'', ''user1'']"
proof -
  have "case ex_tables ''users'' of None \<Rightarrow> False
        | Some t \<Rightarrow> (case index t of None \<Rightarrow> False | Some a \<Rightarrow> adim a = 2)"
    by code_simp
  then obtain t a where h: "ex_tables ''users'' = Some t" "index t = Some a" "adim a = 2"
    by (auto split: option.splits)
  have q: "queryEmbedding ex_tables ''users'' [0, 0, 7] 3
           = Inr [''user2'', ''user3'', ''user1'']"
    by code_simp
  show ?thesis
    using queryEmbedding_reads_adim[of ex_tables "''users''" "[0, 0, 7]" 3] h q
    by auto
qed

subsection \<open>queryHybrid (C5)\<close>

lemma size_t_of_int_nonneg: "0 \<le> i \<Longrightarrow> i < 2 ^ 64 \<Longrightarrow> size_t_of_int i = nat i"
  by (simp add: size_t_of_int_def)

text \<open>
  C5, amended. For every table, field, value and query vector, and every \<open>topK\<close> with
  \<open>0 \<le> topK\<close> and \<open>topK \<times> 10\<close> within the range of \<^verbatim>\<open>int\<close>: \<open>queryHybrid\<close> returns the empty list
  when \<open>queryField\<close> is empty; otherwise it returns the first up to \<open>topK\<close> elements, in order,
  of the list produced by \<open>queryEmbedding\<close> with \<open>topK \<times> 10\<close>, restricted to the ids of the
  \<open>queryField\<close> result (and it fails as \<open>queryEmbedding\<close> does when that fails).
\<close>

theorem queryHybrid_first_topK:
  assumes "0 \<le> topK" and "topK * 10 < 2 ^ 31"
  shows "(queryField tbls tname field val = [] \<longrightarrow>
            queryHybrid tbls tname field val q topK = Inr [])
       \<and> (queryField tbls tname field val \<noteq> [] \<longrightarrow>
            (\<forall>cands. queryEmbedding tbls tname q (topK * 10) = Inr cands \<longrightarrow>
               queryHybrid tbls tname field val q topK
                 = Inr (take (nat topK)
                     (filter (\<lambda>rid. rid \<in> set (queryField tbls tname field val)) cands)))
          \<and> (\<forall>e. queryEmbedding tbls tname q (topK * 10) = Inl e \<longrightarrow>
               queryHybrid tbls tname field val q topK = Inl e))"
proof -
  have r: "int_range (topK * 10)"
    using assms by (simp add: int_range_def)
  have "topK < 2 ^ 64"
    using assms by simp
  then have k: "size_t_of_int topK = nat topK"
    using assms(1) by (simp add: size_t_of_int_nonneg)
  show ?thesis
    using r by (auto simp: queryHybrid_def Let_def k)
qed

theorem queryHybrid_first_topK_witness:
  "queryField ex_tables ''users'' ''name'' ''Alice'' = [''user1'', ''user2'']
   \<and> queryEmbedding ex_tables ''users'' [0, 0] (1 * 10) = Inr [''user2'', ''user3'', ''user1'']
   \<and> queryHybrid ex_tables ''users'' ''name'' ''Alice'' [0, 0] 1 = Inr [''user2'']
   \<and> queryField ex_tables ''users'' ''name'' ''Carol'' = []
   \<and> queryHybrid ex_tables ''users'' ''name'' ''Carol'' [0, 0] 1 = Inr []"
proof -
  have f: "queryField ex_tables ''users'' ''name'' ''Alice'' = [''user1'', ''user2'']"
    by code_simp
  have c: "queryEmbedding ex_tables ''users'' [0, 0] (1 * 10)
           = Inr [''user2'', ''user3'', ''user1'']"
    by code_simp
  have n: "queryField ex_tables ''users'' ''name'' ''Carol'' = []"
    by code_simp
  show ?thesis
    using queryHybrid_first_topK[of 1 ex_tables "''users''" "''name''" "''Alice''" "[0, 0]"]
      queryHybrid_first_topK[of 1 ex_tables "''users''" "''name''" "''Carol''" "[0, 0]"] f c n
    by simp
qed

lemma searchKnn_all:
  assumes "length (points a) \<le> k" and "length (points a) \<le> k'"
  shows "searchKnn a q k = searchKnn a q k'"
proof -
  define xs where "xs = sort (map (\<lambda>(l, v). (L2Sqr (take (adim a) q) v, l))
                                 (filter (\<lambda>(l, v). l \<notin> deleted a) (points a)))"
  have "length xs \<le> length (points a)"
    unfolding xs_def by simp
  then have "take k xs = xs" "take k' xs = xs"
    using assms by simp_all
  then show ?thesis
    unfolding searchKnn_def xs_def by simp
qed

lemma queryEmbedding_all:
  assumes "tbls tname = Some t" "index t = Some a"
    and "length (points a) \<le> size_t_of_int k" and "length (points a) \<le> size_t_of_int k'"
  shows "queryEmbedding tbls tname q k = queryEmbedding tbls tname q k'"
  using assms searchKnn_all[OF assms(3,4)] by (simp add: queryEmbedding_def)

text \<open>
  The claim C5 as stated, for every \<open>topK\<close>, fails at \<open>topK = -1\<close>: \<open>queryField\<close> is not empty,
  \<open>queryEmbedding\<close> with \<open>-1 \<times> 10\<close> (read as the unsigned \<open>2^64 - 10\<close>) returns all three ids,
  and \<open>queryHybrid\<close> returns the two that match the field, where the first up to \<open>-1\<close>
  elements of the restricted list are none: the cast \<^verbatim>\<open>(size_t)topK\<close> of line 360 makes the
  bound \<open>2^64 - 1\<close>. And at \<open>topK = 214748365\<close> the product \<open>topK \<times> 10\<close> overflows \<^verbatim>\<open>int\<close>.
\<close>

theorem queryHybrid_negative_topK:
  "queryField ex_tables ''users'' ''name'' ''Alice'' = [''user1'', ''user2'']
   \<and> queryEmbedding ex_tables ''users'' [0, 0] (- 1 * 10) = Inr [''user2'', ''user3'', ''user1'']
   \<and> queryHybrid ex_tables ''users'' ''name'' ''Alice'' [0, 0] (- 1) = Inr [''user2'', ''user1'']
   \<and> take (nat (- 1)) (filter (\<lambda>rid. rid \<in> set [''user1'', ''user2''])
         [''user2'', ''user3'', ''user1'']) = []
   \<and> queryHybrid ex_tables ''users'' ''name'' ''Alice'' [0, 0] 214748365 = Inl SignedOverflow"
proof -
  have f: "queryField ex_tables ''users'' ''name'' ''Alice'' = [''user1'', ''user2'']"
    by code_simp
  have "case ex_tables ''users'' of None \<Rightarrow> False
        | Some t \<Rightarrow> (case index t of None \<Rightarrow> False | Some a \<Rightarrow> length (points a) = 3)"
    by code_simp
  then obtain t a where h: "ex_tables ''users'' = Some t" "index t = Some a"
      "length (points a) = 3"
    by (auto split: option.splits)
  have "queryEmbedding ex_tables ''users'' [0, 0] (- 10)
        = queryEmbedding ex_tables ''users'' [0, 0] 3"
    by (rule queryEmbedding_all[where t = t and a = a]) (simp_all add: h size_t_of_int_def)
  moreover have "queryEmbedding ex_tables ''users'' [0, 0] 3
                 = Inr [''user2'', ''user3'', ''user1'']"
    by code_simp
  ultimately have c: "queryEmbedding ex_tables ''users'' [0, 0] (- 10)
                      = Inr [''user2'', ''user3'', ''user1'']"
    by simp
  have k: "size_t_of_int (- 1) = 18446744073709551615"
    by (simp add: size_t_of_int_def)
  have hy: "queryHybrid ex_tables ''users'' ''name'' ''Alice'' [0, 0] (- 1)
            = Inr [''user2'', ''user1'']"
    by (simp add: queryHybrid_def f c k int_range_def)
  have ov: "queryHybrid ex_tables ''users'' ''name'' ''Alice'' [0, 0] 214748365
            = Inl SignedOverflow"
    by (simp add: queryHybrid_def f int_range_def)
  show ?thesis
    using f c hy ov by simp
qed

subsection \<open>Labels are never reused (C7)\<close>

lemma unat_succ: "unat (x :: label) + 1 < 2 ^ 64 \<Longrightarrow> unat (x + 1) = unat x + 1"
  using unat_add_lem[of x 1] by simp

lemma word_succ_less: "unat (x :: label) + 1 < 2 ^ 64 \<Longrightarrow> x < x + 1"
  by (simp add: word_less_nat_alt unat_succ)

lemma word_less_succ_trans: "unat (x :: label) + 1 < 2 ^ 64 \<Longrightarrow> y < x \<Longrightarrow> y < x + 1"
  by (simp add: word_less_nat_alt unat_succ)

lemma upsert_nextLabel:
  assumes "upsert t task = Inr t'"
  shows "nextLabel t' = (if map_of (records t) (recordID task) = None then nextLabel t + 1 else nextLabel t)"
  using assms
  by (auto simp: upsert_def Let_def split: sum.splits option.splits)

lemma upsert_records:
  assumes "upsert t task = Inr t'"
  shows "map_of (records t') rid = Some r' \<Longrightarrow>
           (rid \<noteq> recordID task \<and> map_of (records t) rid = Some r')
           \<or> (rid = recordID task \<and>
               label r' = (case map_of (records t) rid of None \<Rightarrow> nextLabel t | Some r \<Rightarrow> label r))"
  using assms
  by (auto simp: upsert_def Let_def update_conv' split: sum.splits option.splits if_splits)

lemma upsert_below:
  assumes u: "upsert t task = Inr t'" and b: "labels_below t"
    and room: "unat (nextLabel t) + 1 < 2 ^ 64"
  shows "labels_below t'"
  unfolding labels_below_def
proof (intro allI impI)
  fix rid r'
  assume m: "map_of (records t') rid = Some r'"
  show "label r' < nextLabel t'"
  proof (cases "map_of (records t) (recordID task)")
    case None
    then have n: "nextLabel t' = nextLabel t + 1"
      using upsert_nextLabel[OF u] by simp
    from upsert_records[OF u m] show ?thesis
    proof
      assume "rid \<noteq> recordID task \<and> map_of (records t) rid = Some r'"
      then have "label r' < nextLabel t" using b by (auto simp: labels_below_def)
      then show ?thesis unfolding n by (rule word_less_succ_trans[OF room])
    next
      assume "rid = recordID task \<and>
               label r' = (case map_of (records t) rid of None \<Rightarrow> nextLabel t | Some r \<Rightarrow> label r)"
      then have "label r' = nextLabel t" using None by simp
      then show ?thesis unfolding n using word_succ_less[OF room] by simp
    qed
  next
    case (Some r)
    then have n: "nextLabel t' = nextLabel t"
      using upsert_nextLabel[OF u] by simp
    from upsert_records[OF u m] show ?thesis
      using b Some unfolding n by (auto simp: labels_below_def)
  qed
qed

lemma processInsert_other:
  assumes "processInsert tbls task = Inr tbls'" "tableName task \<noteq> tname"
  shows "table_at tbls' tname = table_at tbls tname"
  using assms
  by (auto simp: processInsert_def Let_def table_at_def createTable_def split: sum.splits if_splits)

lemma processInsert_same:
  assumes "processInsert tbls task = Inr tbls'"
  shows "\<exists>t0. records t0 = records (table_at tbls (tableName task))
            \<and> nextLabel t0 = nextLabel (table_at tbls (tableName task))
            \<and> upsert t0 task = Inr (table_at tbls' (tableName task))"
proof -
  let ?tn = "tableName task"
  let ?tbls1 = "if tbls ?tn = None
                then createTable tbls ?tn (length (task_embedding task)) else tbls"
  obtain t' where u: "upsert (table_at ?tbls1 ?tn) task = Inr t'"
    and t': "tbls' = ?tbls1(?tn \<mapsto> t')"
    using assms by (auto simp: processInsert_def Let_def split: sum.splits)
  have same: "records (table_at ?tbls1 ?tn) = records (table_at tbls ?tn)"
       "nextLabel (table_at ?tbls1 ?tn) = nextLabel (table_at tbls ?tn)"
    by (auto simp: table_at_def createTable_def new_Table_def)
  have "table_at tbls' ?tn = t'"
    unfolding t' by (simp add: table_at_def)
  then show ?thesis
    using u same by blast
qed

text \<open>One step of the worker, seen from table tname.\<close>

lemma processInsert_step:
  assumes p: "processInsert tbls task = Inr tbls1"
    and b: "labels_below (table_at tbls tname)"
    and room: "unat (nextLabel (table_at tbls tname)) + 1 < 2 ^ 64"
  shows "labels_below (table_at tbls1 tname)"
    and "nextLabel (table_at tbls1 tname) =
         (if tableName task = tname \<and> map_of (records (table_at tbls tname)) (recordID task) = None
          then nextLabel (table_at tbls tname) + 1 else nextLabel (table_at tbls tname))"
    and "tableName task = tname \<and> map_of (records (table_at tbls tname)) (recordID task) = None
         \<Longrightarrow> label_of tbls1 tname (recordID task) = [nextLabel (table_at tbls tname)]"
proof -
  show "labels_below (table_at tbls1 tname)"
  proof (cases "tableName task = tname")
    case True
    obtain t0 where t0: "records t0 = records (table_at tbls tname)"
        "nextLabel t0 = nextLabel (table_at tbls tname)"
        "upsert t0 task = Inr (table_at tbls1 tname)"
      using processInsert_same[OF p] True by auto
    have "labels_below t0" using b t0 by (simp add: labels_below_def)
    then show ?thesis
      using upsert_below[OF t0(3)] room t0(2) by simp
  next
    case False
    then show ?thesis using processInsert_other[OF p] b by simp
  qed
  show "nextLabel (table_at tbls1 tname) =
         (if tableName task = tname \<and> map_of (records (table_at tbls tname)) (recordID task) = None
          then nextLabel (table_at tbls tname) + 1 else nextLabel (table_at tbls tname))"
  proof (cases "tableName task = tname")
    case True
    obtain t0 where t0: "records t0 = records (table_at tbls tname)"
        "nextLabel t0 = nextLabel (table_at tbls tname)"
        "upsert t0 task = Inr (table_at tbls1 tname)"
      using processInsert_same[OF p] True by auto
    show ?thesis
      using upsert_nextLabel[OF t0(3)] t0(1,2) True by simp
  next
    case False
    then show ?thesis using processInsert_other[OF p] by simp
  qed
  show "label_of tbls1 tname (recordID task) = [nextLabel (table_at tbls tname)]"
    if h: "tableName task = tname \<and> map_of (records (table_at tbls tname)) (recordID task) = None"
  proof -
    obtain t0 where t0: "records t0 = records (table_at tbls tname)"
        "nextLabel t0 = nextLabel (table_at tbls tname)"
        "upsert t0 task = Inr (table_at tbls1 tname)"
      using processInsert_same[OF p] h by auto
    from upsert_label[OF t0(3)] show ?thesis
      using h t0(1,2) by (auto simp: label_of_def)
  qed
qed

lemma run_labels:
  "processAll tbls tasks = Inr tbls' \<Longrightarrow> labels_below (table_at tbls tname) \<Longrightarrow>
   unat (nextLabel (table_at tbls tname)) + length tasks < 2 ^ 64 \<Longrightarrow>
     sorted_wrt (<) (assigned tbls tname tasks)
     \<and> (\<forall>l \<in> set (assigned tbls tname tasks).
           nextLabel (table_at tbls tname) \<le> l \<and> l < nextLabel (table_at tbls' tname))
     \<and> labels_below (table_at tbls' tname)
     \<and> nextLabel (table_at tbls tname) \<le> nextLabel (table_at tbls' tname)
     \<and> unat (nextLabel (table_at tbls' tname))
         \<le> unat (nextLabel (table_at tbls tname)) + length tasks"
proof (induction tasks arbitrary: tbls)
  case Nil
  then show ?case by simp
next
  case (Cons task rest)
  let ?n0 = "nextLabel (table_at tbls tname)"
  obtain tbls1 where p: "processInsert tbls task = Inr tbls1"
    and rest: "processAll tbls1 rest = Inr tbls'"
    using Cons.prems(1) by (auto split: sum.splits)
  let ?n1 = "nextLabel (table_at tbls1 tname)"
  let ?n' = "nextLabel (table_at tbls' tname)"
  let ?new = "tableName task = tname \<and> map_of (records (table_at tbls tname)) (recordID task) = None"
  have room1: "unat ?n0 + 1 < 2 ^ 64"
    using Cons.prems(3) by simp
  note step = processInsert_step[OF p Cons.prems(2) room1]
  have n1: "?n1 = (if ?new then ?n0 + 1 else ?n0)"
    by (rule step(2))
  have u1: "unat ?n1 \<le> unat ?n0 + 1"
    using n1 unat_succ[OF room1] by (simp split: if_splits)
  have le01: "?n0 \<le> ?n1"
    using n1 word_succ_less[OF room1] by (auto simp: less_imp_le)
  have room': "unat ?n1 + length rest < 2 ^ 64"
    using u1 Cons.prems(3) by simp
  note IH = Cons.IH[OF rest step(1) room']
  have a: "assigned tbls tname (task # rest)
           = (if ?new then [?n0] else []) @ assigned tbls1 tname rest"
    using p step(3) by simp
  have lt: "?new \<Longrightarrow> ?n0 < ?n1"
    using n1 word_succ_less[OF room1] by simp
  have s: "sorted_wrt (<) (assigned tbls tname (task # rest))"
    unfolding a using IH lt by (auto simp: sorted_wrt_append)
  have bounds: "\<forall>l \<in> set (assigned tbls tname (task # rest)). ?n0 \<le> l \<and> l < ?n'"
    unfolding a using IH lt le01 by (auto split: if_splits)
  have "?n0 \<le> ?n'" using IH le01 by auto
  moreover have "unat ?n' \<le> unat ?n0 + length (task # rest)"
    using IH u1 by simp
  ultimately show ?case
    using s bounds IH by blast
qed

lemma unat_max_label: "unat (- 1 :: label) = 18446744073709551615"
  by (simp add: unsigned_minus_1_eq_mask mask_eq_exp_minus_1)

lemma label_room: "(l :: label) \<noteq> - 1 \<Longrightarrow> unat l + 1 < 2 ^ 64"
proof -
  assume "l \<noteq> - 1"
  then have "unat l \<noteq> unat (- 1 :: label)"
    by (simp add: word_unat_eq_iff)
  moreover have "unat l < 2 ^ 64"
    using unsigned_less[of l] by simp
  ultimately show ?thesis by (simp add: unat_max_label)
qed

lemma load_item_below:
  assumes "labels_below t" "label (snd item) \<noteq> - 1"
  shows "labels_below (load_item item t)"
proof -
  let ?l = "label (snd item)"
  have room: "unat ?l + 1 < 2 ^ 64"
    by (rule label_room[OF assms(2)])
  have lt: "?l < ?l + 1"
    by (rule word_succ_less[OF room])
  show ?thesis
    using assms(1) lt
    by (auto simp: labels_below_def load_item_def Let_def update_conv' split: if_splits)
       (meson order.strict_trans order.strict_trans2)+
qed

lemma fold_load_item_below:
  "labels_below t \<Longrightarrow> \<forall>item \<in> set j. label (snd item) \<noteq> - 1 \<Longrightarrow>
     labels_below (fold load_item j t)"
  by (induction j arbitrary: t) (auto simp: load_item_below)

lemma labels_below_new: "labels_below new_Table"
  by (simp add: labels_below_def new_Table_def)

lemma loadTable_below:
  assumes "\<forall>item \<in> set j. label (snd item) \<noteq> - 1"
  shows "labels_below (table_at (loadTable tbls tname (Some j) ix) tname)"
proof -
  have "labels_below (fold load_item j new_Table)"
    by (rule fold_load_item_below[OF labels_below_new assms])
  then have "labels_below (fold load_item j new_Table\<lparr>index := x\<rparr>)" for x
    by (simp add: labels_below_def)
  then show ?thesis
    using \<open>labels_below (fold load_item j new_Table)\<close>
    by (auto simp: loadTable_def Let_def table_at_def split: option.splits)
qed

text \<open>
  The claim C7 is stated for every sequence of inserts. \<^verbatim>\<open>nextLabel\<close> is a 64-bit \<^verbatim>\<open>size_t\<close>
  and \<open>loadTable\<close> takes the labels that the snapshot file gives, so the counter can stand
  anywhere below \<open>2^64\<close> and \<^verbatim>\<open>nextLabel++\<close> and \<^verbatim>\<open>r.label+1\<close> wrap to 0. After a restart from
  \<open>high_snapshot\<close>, whose record \<open>a\<close> has the label \<open>2^64 - 2\<close>, the labels of the table lie
  below \<open>nextLabel = 2^64 - 1\<close>, and the inserts of \<open>b\<close> and \<open>c\<close> are given the labels
  \<open>2^64 - 1\<close> and 0: not increasing, and the \<open>nextLabel\<close> that the run ends with, 1, is
  below the label of \<open>a\<close>. After a restart from \<open>reuse_snapshot\<close>, where \<open>a\<close> has the label 0
  and \<open>b\<close> the label \<open>2^64 - 1\<close>, \<open>nextLabel\<close> is 0, and the insert of \<open>c\<close> is given the label
  0, which \<open>a\<close> carries.
\<close>

theorem labels_wrap_after_load:
  "labels_below (table_at ex_high ''docs'')
   \<and> nextLabel (table_at ex_high ''docs'') = - 1
   \<and> (case processAll ex_high high_tasks of
         Inl e \<Rightarrow> False
       | Inr tbls \<Rightarrow> label_of tbls ''docs'' ''a'' = [- 2]
                     \<and> nextLabel (table_at tbls ''docs'') = 1)
   \<and> assigned ex_high ''docs'' high_tasks = [- 1, 0]
   \<and> \<not> sorted_wrt (<) (assigned ex_high ''docs'' high_tasks)
   \<and> nextLabel (table_at ex_reuse ''docs'') = 0
   \<and> label_of ex_reuse ''docs'' ''a'' = [0]
   \<and> assigned ex_reuse ''docs'' [mk_task ''docs'' ''c'' [] [1]] = [0]"
proof -
  have b: "labels_below (table_at ex_high ''docs'')"
    unfolding ex_high_def by (rule loadTable_below) (simp add: high_snapshot_def)
  have n: "nextLabel (table_at ex_high ''docs'') = - 1"
    by code_simp
  have p: "case processAll ex_high high_tasks of
             Inl e \<Rightarrow> False
           | Inr tbls \<Rightarrow> label_of tbls ''docs'' ''a'' = [- 2]
                         \<and> nextLabel (table_at tbls ''docs'') = 1"
    by code_simp
  have a: "assigned ex_high ''docs'' high_tasks = [- 1, 0]"
    by code_simp
  have s: "\<not> sorted_wrt (<) (assigned ex_high ''docs'' high_tasks)"
    unfolding a by simp
  have r: "nextLabel (table_at ex_reuse ''docs'') = 0"
    "label_of ex_reuse ''docs'' ''a'' = [0]"
    "assigned ex_reuse ''docs'' [mk_task ''docs'' ''c'' [] [1]] = [0]"
    by code_simp+
  show ?thesis
    using b n p a s r by simp
qed

text \<open>
  C7, amended. For every run of the worker that applies all its tasks (none reads a
  vector past its end), from a state in which the labels of table \<open>tname\<close> lie below its
  \<open>nextLabel\<close> (a fresh engine is one; so is a table just loaded from a snapshot in which
  no record has the label \<open>2^64 - 1\<close>, by \<open>loadTable_below\<close>), and with fewer tasks than
  \<open>nextLabel\<close> has room before \<open>2^64\<close>: the labels given to the new record ids of the table
  are strictly increasing in the order of assignment, hence pairwise distinct; each of
  them is at least the \<open>nextLabel\<close> the run started from, so none repeats the label of an
  earlier record, and lies below the \<open>nextLabel\<close> the run ends with, as does the label of
  every stored record.
\<close>

theorem labels_strictly_increasing:
  assumes "processAll tbls tasks = Inr tbls'"
    and "labels_below (table_at tbls tname)"
    and "unat (nextLabel (table_at tbls tname)) + length tasks < 2 ^ 64"
  shows "sorted_wrt (<) (assigned tbls tname tasks)
       \<and> distinct (assigned tbls tname tasks)
       \<and> (\<forall>l \<in> set (assigned tbls tname tasks).
             nextLabel (table_at tbls tname) \<le> l \<and> l < nextLabel (table_at tbls' tname))
       \<and> nextLabel (table_at tbls tname) \<le> nextLabel (table_at tbls' tname)
       \<and> labels_below (table_at tbls' tname)"
proof -
  note r = run_labels[OF assms]
  then have "sorted_wrt (<) (assigned tbls tname tasks)" by simp
  then have "distinct (assigned tbls tname tasks)"
    by (simp add: strict_sorted_iff)
  then show ?thesis using r by simp
qed

theorem labels_strictly_increasing_witness:
  "processAll Map.empty run_tasks = Inr ex_run
   \<and> labels_below (table_at Map.empty ''users'')
   \<and> nextLabel (table_at Map.empty ''users'') = 0
   \<and> assigned Map.empty ''users'' run_tasks = [0, 1, 2]
   \<and> nextLabel (table_at ex_run ''users'') = 3
   \<and> labels_below (table_at ex_run ''users'')"
proof -
  have p: "processAll Map.empty run_tasks = Inr ex_run"
    unfolding ex_run_def by (rule the_tables_Inr) code_simp
  have b: "labels_below (table_at Map.empty ''users'')"
    by (simp add: table_at_def labels_below_new)
  have n: "nextLabel (table_at Map.empty ''users'') = 0"
    by (simp add: table_at_def new_Table_def)
  have room: "unat (nextLabel (table_at Map.empty ''users'')) + length run_tasks < 2 ^ 64"
    by (simp add: n run_tasks_def)
  have a: "assigned Map.empty ''users'' run_tasks = [0, 1, 2]"
    by code_simp
  have n': "nextLabel (table_at ex_run ''users'') = 3"
    by code_simp
  show ?thesis
    using labels_strictly_increasing[OF p b room] p b n a n' by simp
qed

subsection \<open>Saving and loading a table (C8)\<close>

lemma json_set_keys: "fst ` set (json_set j k v) = insert k (fst ` set j)"
proof (induction j)
  case Nil
  then show ?case by simp
next
  case (Cons p j)
  obtain k' v' where p: "p = (k', v')" by (cases p)
  show ?case
    using Cons.IH unfolding p by (simp add: insert_commute)
qed

lemma json_set_sorted:
  "sorted_wrt (<) (map fst j) \<Longrightarrow> sorted_wrt (<) (map fst (json_set j k v))"
proof (induction j)
  case Nil
  then show ?case by simp
next
  case (Cons p j)
  obtain k' v' where p: "p = (k', v')" by (cases p)
  have above: "\<forall>x \<in> fst ` set j. k' < x" and tl: "sorted_wrt (<) (map fst j)"
    using Cons.prems unfolding p by simp_all
  consider "k < k'" | "k = k'" | "k' < k"
    by (meson linorder_less_linear)
  then show ?case
  proof cases
    case 1
    then have "\<forall>x \<in> fst ` set j. k < x"
      using above by (meson less_trans)
    then show ?thesis
      unfolding p using 1 above tl by simp
  next
    case 2
    then show ?thesis
      unfolding p using above tl by simp
  next
    case 3
    then have "\<forall>x \<in> fst ` set (json_set j k v). k' < x"
      using above by (simp add: json_set_keys)
    moreover have "\<not> k < k'" "k \<noteq> k'"
      using 3 by auto
    ultimately show ?thesis
      unfolding p using Cons.IH[OF tl] by simp
  qed
qed

lemma json_set_map_of:
  "sorted_wrt (<) (map fst j) \<Longrightarrow> map_of (json_set j k v) = (map_of j)(k \<mapsto> v)"
proof (induction j)
  case Nil
  then show ?case by simp
next
  case (Cons p j)
  obtain k' v' where p: "p = (k', v')" by (cases p)
  show ?case
    using Cons unfolding p by (auto simp: fun_eq_iff)
qed

lemma fold_json_set_sorted:
  "sorted_wrt (<) (map fst j) \<Longrightarrow>
     sorted_wrt (<) (map fst (fold (\<lambda>(rid, r) j. json_set j rid r) recs j))"
  by (induction recs arbitrary: j) (auto simp: json_set_sorted)

lemma fold_json_set_map_of:
  "sorted_wrt (<) (map fst j) \<Longrightarrow> distinct (map fst recs) \<Longrightarrow>
     map_of (fold (\<lambda>(rid, r) j. json_set j rid r) recs j) = map_of j ++ map_of recs"
proof (induction recs arbitrary: j)
  case Nil
  then show ?case by simp
next
  case (Cons p recs)
  obtain k v where p: "p = (k, v)" by (cases p)
  have "map_of recs k = None"
    using Cons.prems(2) unfolding p by (simp add: map_of_eq_None_iff)
  then have e: "(map_of j)(k \<mapsto> v) ++ map_of recs = map_of j ++ map_of ((k, v) # recs)"
    by (auto simp: fun_eq_iff map_add_def split: option.splits)
  have s: "sorted_wrt (<) (map fst (json_set j k v))"
    by (rule json_set_sorted[OF Cons.prems(1)])
  have d: "distinct (map fst recs)"
    using Cons.prems(2) by simp
  have "map_of (fold (\<lambda>(rid, r) j. json_set j rid r) recs (json_set j k v))
        = map_of (json_set j k v) ++ map_of recs"
    by (rule Cons.IH[OF s d])
  also have "\<dots> = map_of j ++ map_of ((k, v) # recs)"
    unfolding json_set_map_of[OF Cons.prems(1)] by (rule e)
  finally show ?case
    unfolding p by (simp only: fold_simps case_prod_conv comp_apply)
qed

lemma saveTable_sorted: "sorted_wrt (<) (map fst (saveTable tbls tname))"
  using fold_json_set_sorted[of "[]"] by (simp add: saveTable_def)

lemma saveTable_map_of:
  "distinct (map fst (records (table_at tbls tname))) \<Longrightarrow>
     map_of (saveTable tbls tname) = map_of (records (table_at tbls tname))"
  using fold_json_set_map_of[of "[]"] by (simp add: saveTable_def)

lemma sorted_keys_distinct: "sorted_wrt (<) (map fst (j :: (string \<times> 'v) list)) \<Longrightarrow> distinct (map fst j)"
  by (simp add: strict_sorted_iff)

lemma map_of_eq_set:
  "distinct (map fst xs) \<Longrightarrow> distinct (map fst ys) \<Longrightarrow> map_of xs = map_of ys \<Longrightarrow> set xs = set ys"
  by (metis map_of_inject_set)

lemma in_index_insert:
  "in_index (index_insert fi key val rid) k v x
     \<longleftrightarrow> in_index fi k v x \<or> (k = key \<and> v = val \<and> x = rid)"
  by (auto simp: in_index_def index_insert_def Let_def split: option.splits)

lemma fold_index_insert:
  "in_index (fold (\<lambda>(key, val) fi. index_insert fi key val rid) fs fi) k v x
     \<longleftrightarrow> in_index fi k v x \<or> (x = rid \<and> (k, v) \<in> set fs)"
proof (induction fs arbitrary: fi)
  case Nil
  then show ?case by simp
next
  case (Cons p fs)
  obtain key val where p: "p = (key, val)" by (cases p)
  have "in_index (fold (\<lambda>(key, val) fi. index_insert fi key val rid) (p # fs) fi) k v x
        \<longleftrightarrow> in_index (index_insert fi key val rid) k v x \<or> (x = rid \<and> (k, v) \<in> set fs)"
    unfolding p using Cons.IH[of "index_insert fi key val rid"] by simp
  also have "\<dots> \<longleftrightarrow> in_index fi k v x \<or> (x = rid \<and> (k, v) \<in> set (p # fs))"
    unfolding p in_index_insert by auto
  finally show ?case .
qed

lemma load_item_index:
  "in_index (fieldIndex (load_item item t)) k v x
     \<longleftrightarrow> in_index (fieldIndex t) k v x \<or> (x = fst item \<and> (k, v) \<in> set (rfields (snd item)))"
  by (simp add: load_item_def Let_def fold_index_insert)

lemma fold_load_item_index:
  "in_index (fieldIndex (fold load_item j t)) k v x
     \<longleftrightarrow> in_index (fieldIndex t) k v x \<or> (\<exists>r. (x, r) \<in> set j \<and> (k, v) \<in> set (rfields r))"
  by (induction j arbitrary: t) (auto simp: load_item_index)

lemma map_add_upd_left:
  "map_of recs k = None \<Longrightarrow> m(k \<mapsto> v) ++ map_of recs = m ++ map_of ((k, v) # recs)"
  by (auto simp: fun_eq_iff map_add_def split: option.splits)

lemma fold_load_item_records:
  "distinct (map fst j) \<Longrightarrow>
     map_of (records (fold load_item j t)) = map_of (records t) ++ map_of j"
proof (induction j arbitrary: t)
  case Nil
  then show ?case by simp
next
  case (Cons p j)
  obtain k v where p: "p = (k, v)" by (cases p)
  have n: "map_of j k = None"
    using Cons.prems unfolding p by (simp add: map_of_eq_None_iff)
  have d: "distinct (map fst j)"
    using Cons.prems by simp
  have "map_of (records (fold load_item j (load_item p t)))
        = map_of (records (load_item p t)) ++ map_of j"
    by (rule Cons.IH[OF d])
  also have "\<dots> = map_of (records t) ++ map_of ((k, v) # j)"
    unfolding load_item_records p using map_add_upd_left[OF n] by simp
  finally show ?case
    unfolding p by (simp only: fold_simps comp_apply)
qed

lemma fold_load_item_label_keep:
  "\<forall>p \<in> set j. label (snd p) = l \<longrightarrow> fst p = rid \<Longrightarrow> labelToID t l = Some rid \<Longrightarrow>
     labelToID (fold load_item j t) l = Some rid"
  by (induction j arbitrary: t) (auto simp: load_item_labelToID)

lemma fold_load_item_label_set:
  "\<forall>p \<in> set j. label (snd p) = l \<longrightarrow> fst p = rid \<Longrightarrow> \<exists>p \<in> set j. label (snd p) = l \<Longrightarrow>
     labelToID (fold load_item j t) l = Some rid"
proof (induction j arbitrary: t)
  case Nil
  then show ?case by simp
next
  case (Cons p j)
  show ?case
  proof (cases "label (snd p) = l")
    case True
    then have "labelToID (load_item p t) l = Some rid"
      using Cons.prems(1) by (simp add: load_item_labelToID)
    then show ?thesis
      using fold_load_item_label_keep[of j l rid "load_item p t"] Cons.prems(1) by simp
  next
    case False
    then show ?thesis
      using Cons by auto
  qed
qed

lemma fold_load_item_label_from:
  "labelToID (fold load_item j t) l = Some rid \<Longrightarrow>
     labelToID t l = Some rid \<or> (\<exists>p \<in> set j. label (snd p) = l \<and> fst p = rid)"
proof (induction j arbitrary: t)
  case Nil
  then show ?case by simp
next
  case (Cons p j)
  from Cons.IH[of "load_item p t"] Cons.prems
  have "labelToID (load_item p t) l = Some rid \<or> (\<exists>p \<in> set j. label (snd p) = l \<and> fst p = rid)"
    by simp
  then show ?case
    by (auto simp: load_item_labelToID split: if_splits)
qed

lemma load_item_dim:
  "dim (load_item item t) = (if dim t = 0 then length (embedding (snd item)) else dim t)"
  by (simp add: load_item_def Let_def)

lemma fold_load_item_dim:
  "dim (fold load_item j t) =
     (if dim t \<noteq> 0 then dim t
      else (case filter (\<lambda>p. embedding (snd p) \<noteq> []) j of
              [] \<Rightarrow> 0 | p # rest \<Rightarrow> length (embedding (snd p))))"
  by (induction j arbitrary: t) (auto simp: load_item_dim)

lemma load_item_nextLabel:
  "nextLabel (load_item item t) =
     (if label (snd item) \<ge> nextLabel t then label (snd item) + 1 else nextLabel t)"
  by (simp add: load_item_def Let_def)

lemma next_max:
  assumes "(l :: label) \<noteq> - 1"
  shows "(if l \<ge> n then l + 1 else n) = max n (l + 1)"
proof -
  have u: "unat (l + 1) = unat l + 1"
    by (rule unat_succ[OF label_room[OF assms]])
  show ?thesis
    by (auto simp: max_def word_le_nat_alt u word_unat_eq_iff)
qed

lemma Max_insert_max:
  fixes S :: "label set"
  assumes "finite S"
  shows "Max (insert (max a b) S) = Max (insert a (insert b S))"
proof (cases "S = {}")
  case True
  then show ?thesis by simp
next
  case False
  then show ?thesis
    using assms by (simp add: max.assoc)
qed

lemma fold_load_item_nextLabel:
  "\<forall>p \<in> set j. label (snd p) \<noteq> - 1 \<Longrightarrow>
     nextLabel (fold load_item j t) = Max (insert (nextLabel t) ((\<lambda>p. label (snd p) + 1) ` set j))"
proof (induction j arbitrary: t)
  case Nil
  then show ?case by simp
next
  case (Cons p j)
  have n: "nextLabel (load_item p t) = max (nextLabel t) (label (snd p) + 1)"
    using Cons.prems by (simp add: load_item_nextLabel next_max)
  have "nextLabel (fold load_item j (load_item p t))
        = Max (insert (nextLabel (load_item p t)) ((\<lambda>p. label (snd p) + 1) ` set j))"
    using Cons by simp
  also have "\<dots> = Max (insert (nextLabel t)
                      (insert (label (snd p) + 1) ((\<lambda>p. label (snd p) + 1) ` set j)))"
    unfolding n by (rule Max_insert_max) simp
  finally show ?case by simp
qed

lemma Max_succ:
  assumes "finite (L :: label set)" "L \<noteq> {}" "\<forall>l \<in> L. l \<noteq> - 1"
  shows "Max (insert 0 ((\<lambda>l. l + 1) ` L)) = Max L + 1"
proof (rule Max_eqI)
  show "finite (insert 0 ((\<lambda>l. l + 1) ` L))" using assms(1) by simp
  have M: "Max L \<in> L" using assms by simp
  then show "Max L + 1 \<in> insert 0 ((\<lambda>l. l + 1) ` L)" by simp
  fix y assume "y \<in> insert 0 ((\<lambda>l. l + 1) ` L)"
  then consider "y = 0" | l where "l \<in> L" "y = l + 1" by auto
  then show "y \<le> Max L + 1"
  proof cases
    case 1
    then show ?thesis by simp
  next
    case 2
    have "l \<le> Max L" using 2 assms(1) by simp
    moreover have "l \<noteq> - 1" "Max L \<noteq> - 1"
      using 2 M assms(3) by auto
    then have "unat (l + 1) = unat l + 1" "unat (Max L + 1) = unat (Max L) + 1"
      using unat_succ[OF label_room[of l]] unat_succ[OF label_room[of "Max L"]] by simp_all
    ultimately show ?thesis
      unfolding 2 by (simp add: word_le_nat_alt)
  qed
qed

lemma upsert_distinct:
  "upsert t task = Inr t' \<Longrightarrow> distinct (map fst (records t)) \<Longrightarrow> distinct (map fst (records t'))"
  by (auto simp: upsert_def Let_def distinct_update split: sum.splits option.splits)

lemma fold_load_item_distinct:
  "distinct (map fst (records t)) \<Longrightarrow> distinct (map fst (records (fold load_item j t)))"
  by (induction j arbitrary: t) (auto simp: load_item_def Let_def distinct_update)

lemma reachable_distinct: "reachable tbls \<Longrightarrow> distinct_ids tbls"
proof (induction rule: reachable.induct)
  case start
  then show ?case by (simp add: distinct_ids_def)
next
  case (load tbls snap tname ixf)
  have d: "distinct (map fst (records (fold load_item j new_Table)))" for j
    by (rule fold_load_item_distinct) (simp add: new_Table_def)
  show ?case
    using load d
    by (auto simp: distinct_ids_def loadTable_def Let_def split: option.splits if_splits)
next
  case (upsert tbls task tbls')
  let ?tn = "tableName task"
  obtain t0 where t0: "records t0 = records (table_at tbls ?tn)"
      "upsert t0 task = Inr (table_at tbls' ?tn)"
    using processInsert_same[OF upsert.hyps(2)] by blast
  have "distinct (map fst (records (table_at tbls ?tn)))"
    using upsert.IH by (auto simp: distinct_ids_def table_at_def new_Table_def split: option.splits)
  then have d: "distinct (map fst (records (table_at tbls' ?tn)))"
    using upsert_distinct[OF t0(2)] t0(1) by simp
  have dom: "tbls' ?tn \<noteq> None"
    using upsert.hyps(2) by (auto simp: processInsert_def Let_def split: sum.splits)
  show ?case
    unfolding distinct_ids_def
  proof (intro allI impI)
    fix tn t assume h: "tbls' tn = Some t"
    show "distinct (map fst (records t))"
    proof (cases "tn = ?tn")
      case True
      then show ?thesis using d h by (simp add: table_at_def)
    next
      case False
      then have "table_at tbls' tn = table_at tbls tn"
        using processInsert_other[OF upsert.hyps(2)] by simp
      moreover have "tbls tn \<noteq> None"
        using upsert.hyps(2) h False
        by (auto simp: processInsert_def Let_def createTable_def split: sum.splits if_splits)
      ultimately show ?thesis
        using upsert.IH h by (auto simp: distinct_ids_def table_at_def)
    qed
  qed
next
  case (delete tbls fs tname rid)
  then show ?case
    by (auto simp: distinct_ids_def remove_reading_def Let_def distinct_delete
             split: option.splits if_splits)
qed

lemma map_of_mem: "distinct (map fst xs) \<Longrightarrow> (map_of xs k = Some v) = ((k, v) \<in> set xs)"
  by simp

lemma upsert_labelToID:
  assumes "upsert t task = Inr t'"
  shows "labelToID t' = (labelToID t)((case map_of (records t) (recordID task) of
                                         None \<Rightarrow> nextLabel t | Some r \<Rightarrow> label r) \<mapsto> recordID task)"
  using assms by (auto simp: upsert_def Let_def split: sum.splits option.splits)

lemma upsert_map_of:
  assumes "upsert t task = Inr t'"
  shows "\<exists>r'. map_of (records t') = (map_of (records t))(recordID task \<mapsto> r')
           \<and> label r' = (case map_of (records t) (recordID task) of
                            None \<Rightarrow> nextLabel t | Some r \<Rightarrow> label r)"
  using assms by (auto simp: upsert_def Let_def update_conv' split: sum.splits option.splits)

lemma upsert_exact:
  assumes u: "upsert t task = Inr t'" and ex: "label_map_exact t" and b: "labels_below t"
  shows "label_map_exact t'"
proof -
  let ?rid = "recordID task"
  let ?lbl = "case map_of (records t) ?rid of None \<Rightarrow> nextLabel t | Some r \<Rightarrow> label r"
  obtain r' where m: "map_of (records t') = (map_of (records t))(?rid \<mapsto> r')"
    and l': "label r' = ?lbl"
    using upsert_map_of[OF u] by blast
  have lt: "labelToID t' = (labelToID t)(?lbl \<mapsto> ?rid)"
    by (rule upsert_labelToID[OF u])
  show ?thesis
  proof (cases "map_of (records t) ?rid")
    case None
    then have lbl: "?lbl = nextLabel t" by simp
    have fresh: "\<not> (\<exists>x r. map_of (records t) x = Some r \<and> label r = nextLabel t)"
      using b unfolding labels_below_def by (metis less_irrefl)
    have other: "labelToID t l = Some x \<Longrightarrow> x \<noteq> ?rid \<and> l \<noteq> nextLabel t" for l x
      using ex None fresh unfolding label_map_exact_def by (metis option.distinct(1))
    show ?thesis
      unfolding label_map_exact_def m lt lbl
      using ex l' lbl fresh other unfolding label_map_exact_def
      by (auto simp: fun_upd_def)
  next
    case (Some r0)
    then have lbl: "?lbl = label r0" by simp
    have old: "labelToID t (label r0) = Some ?rid"
      using ex Some unfolding label_map_exact_def by blast
    have same: "labelToID t' = labelToID t"
      unfolding lt lbl using old by (auto simp: fun_eq_iff)
    show ?thesis
      unfolding label_map_exact_def m same
      using ex l' lbl Some unfolding label_map_exact_def
      by (auto simp: fun_upd_def)
  qed
qed

lemma label_map_exact_new: "label_map_exact new_Table"
  by (simp add: label_map_exact_def new_Table_def)

lemma processInsert_exact:
  assumes p: "processInsert tbls task = Inr tbls1"
    and ex: "label_map_exact (table_at tbls tname)"
    and b: "labels_below (table_at tbls tname)"
  shows "label_map_exact (table_at tbls1 tname)"
proof (cases "tableName task = tname")
  case True
  let ?tn = "tableName task"
  let ?tbls1 = "if tbls ?tn = None
                then createTable tbls ?tn (length (task_embedding task)) else tbls"
  obtain t' where u: "upsert (table_at ?tbls1 ?tn) task = Inr t'"
    and t': "tbls1 = ?tbls1(?tn \<mapsto> t')"
    using p by (auto simp: processInsert_def Let_def split: sum.splits)
  have same: "records (table_at ?tbls1 ?tn) = records (table_at tbls ?tn)"
       "nextLabel (table_at ?tbls1 ?tn) = nextLabel (table_at tbls ?tn)"
       "labelToID (table_at ?tbls1 ?tn) = labelToID (table_at tbls ?tn)"
    by (auto simp: table_at_def createTable_def new_Table_def)
  have "label_map_exact (table_at ?tbls1 ?tn)" "labels_below (table_at ?tbls1 ?tn)"
    using ex b True unfolding label_map_exact_def labels_below_def same by simp_all
  then have "label_map_exact t'"
    using upsert_exact[OF u] by simp
  moreover have "table_at tbls1 ?tn = t'"
    unfolding t' by (simp add: table_at_def)
  ultimately show ?thesis using True by simp
next
  case False
  then show ?thesis using processInsert_other[OF p] ex by simp
qed

lemma run_exact:
  "processAll tbls tasks = Inr tbls' \<Longrightarrow> label_map_exact (table_at tbls tname) \<Longrightarrow>
   labels_below (table_at tbls tname) \<Longrightarrow>
   unat (nextLabel (table_at tbls tname)) + length tasks < 2 ^ 64 \<Longrightarrow>
     label_map_exact (table_at tbls' tname)"
proof (induction tasks arbitrary: tbls)
  case Nil
  then show ?case by simp
next
  case (Cons task rest)
  obtain tbls1 where p: "processInsert tbls task = Inr tbls1"
    and rest: "processAll tbls1 rest = Inr tbls'"
    using Cons.prems(1) by (auto split: sum.splits)
  have room1: "unat (nextLabel (table_at tbls tname)) + 1 < 2 ^ 64"
    using Cons.prems(4) by simp
  note step = processInsert_step[OF p Cons.prems(3) room1]
  have u1: "unat (nextLabel (table_at tbls1 tname)) \<le> unat (nextLabel (table_at tbls tname)) + 1"
    using step(2) unat_succ[OF room1] by (simp split: if_splits)
  have room': "unat (nextLabel (table_at tbls1 tname)) + length rest < 2 ^ 64"
    using u1 Cons.prems(4) by simp
  show ?case
    by (rule Cons.IH[OF rest processInsert_exact[OF p Cons.prems(2,3)] step(1) room'])
qed

lemma loadTable_at:
  "\<exists>x. table_at (loadTable tbls0 tname (Some j) ix) tname
         = (fold load_item j new_Table)\<lparr>index := x\<rparr>"
proof -
  let ?T = "fold load_item j new_Table"
  have same: "?T = ?T\<lparr>index := index ?T\<rparr>"
    by simp
  show ?thesis
  proof (cases ix)
    case None
    then have "table_at (loadTable tbls0 tname (Some j) ix) tname = ?T"
      by (simp add: loadTable_def Let_def table_at_def)
    then show ?thesis using same by metis
  next
    case (Some a)
    show ?thesis
    proof (cases "dim ?T > 0")
      case True
      then have "table_at (loadTable tbls0 tname (Some j) ix) tname
                 = ?T\<lparr>index := Some (a\<lparr>adim := dim ?T\<rparr>)\<rparr>"
        using Some by (simp add: loadTable_def Let_def table_at_def)
      then show ?thesis by blast
    next
      case False
      then have "table_at (loadTable tbls0 tname (Some j) ix) tname = ?T"
        using Some by (simp add: loadTable_def Let_def table_at_def)
      then show ?thesis using same by metis
    qed
  qed
qed

text \<open>
  C8, amended. For every reachable state and every table \<open>t\<close> of it, saving the table's
  snapshot and loading it back (into any engine state, with or without an index file)
  produces a table such that:
  \<^item> the snapshot lists the records in key order, and the loaded \<open>records\<close> equal the
    pre-save \<open>records\<close>;
  \<^item> the loaded \<open>fieldIndex\<close> holds a record id under (key, value) exactly when the record
    of that id has that field value (so it agrees with the pre-save \<open>fieldIndex\<close> wherever
    that one reflects exactly the records' current fields);
  \<^item> the loaded \<open>labelToID\<close> equals the pre-save \<open>labelToID\<close>, provided the pre-save one maps
    exactly the labels of the stored records to their ids (\<open>run_exact\<close>: it does after any run
    of the worker on a fresh engine);
  \<^item> \<open>dim\<close> is the length of the first non-empty embedding in key order, and 0 when there is
    none;
  \<^item> \<open>nextLabel\<close> is one more than the maximum stored label, and 0 for a table without
    records, provided no stored label is \<open>2^64 - 1\<close>.
\<close>

theorem save_load_roundtrip:
  assumes "reachable tbls" and "tbls tname = Some t"
  shows "sorted_wrt (<) (map fst (saveTable tbls tname))
     \<and> map_of (saveTable tbls tname) = map_of (records t)
     \<and> map_of (records (table_at (loadTable tbls0 tname (Some (saveTable tbls tname)) ix) tname))
         = map_of (records t)
     \<and> (\<forall>key val rid.
           in_index (fieldIndex (table_at (loadTable tbls0 tname (Some (saveTable tbls tname)) ix) tname))
             key val rid
           \<longleftrightarrow> (\<exists>r. map_of (records t) rid = Some r \<and> (key, val) \<in> set (rfields r)))
     \<and> (label_map_exact t \<longrightarrow>
           labelToID (table_at (loadTable tbls0 tname (Some (saveTable tbls tname)) ix) tname)
             = labelToID t)
     \<and> dim (table_at (loadTable tbls0 tname (Some (saveTable tbls tname)) ix) tname)
         = (case filter (\<lambda>p. embedding (snd p) \<noteq> []) (saveTable tbls tname) of
              [] \<Rightarrow> 0 | p # rest \<Rightarrow> length (embedding (snd p)))
     \<and> ((\<forall>rid r. map_of (records t) rid = Some r \<longrightarrow> label r \<noteq> - 1) \<longrightarrow>
           nextLabel (table_at (loadTable tbls0 tname (Some (saveTable tbls tname)) ix) tname)
             = (if records t = [] then 0 else Max ((\<lambda>p. label (snd p)) ` set (records t)) + 1))"
proof -
  let ?j = "saveTable tbls tname"
  let ?T = "fold load_item ?j new_Table"
  let ?t' = "table_at (loadTable tbls0 tname (Some ?j) ix) tname"
  have at: "table_at tbls tname = t"
    using assms(2) by (simp add: table_at_def)
  have d: "distinct (map fst (records t))"
    using reachable_distinct[OF assms(1)] assms(2) by (simp add: distinct_ids_def)
  have s: "sorted_wrt (<) (map fst ?j)"
    by (rule saveTable_sorted)
  have dj: "distinct (map fst ?j)"
    by (rule sorted_keys_distinct[OF s])
  have m: "map_of ?j = map_of (records t)"
    using saveTable_map_of[of tbls tname] d at by simp
  have set_eq: "set ?j = set (records t)"
    by (rule map_of_eq_set[OF dj d m])
  obtain x where t': "?t' = ?T\<lparr>index := x\<rparr>"
    using loadTable_at by blast
  have recs: "map_of (records ?t') = map_of (records t)"
    unfolding t' using fold_load_item_records[OF dj, of new_Table] m
    by (simp add: new_Table_def)
  have idx: "in_index (fieldIndex ?t') key val rid
             \<longleftrightarrow> (\<exists>r. map_of (records t) rid = Some r \<and> (key, val) \<in> set (rfields r))"
    for key val rid
  proof -
    have "in_index (fieldIndex ?t') key val rid
          \<longleftrightarrow> (\<exists>r. (rid, r) \<in> set ?j \<and> (key, val) \<in> set (rfields r))"
      unfolding t' using fold_load_item_index[of ?j new_Table key val rid]
      by (simp add: new_Table_def in_index_def)
    then show ?thesis
      unfolding set_eq using d by simp
  qed
  have lab: "labelToID ?t' = labelToID t" if ex: "label_map_exact t"
  proof (rule ext)
    fix l
    show "labelToID ?t' l = labelToID t l"
    proof (cases "labelToID t l")
      case None
      have "labelToID ?T l = None"
      proof (rule ccontr)
        assume "labelToID ?T l \<noteq> None"
        then obtain rid where "labelToID ?T l = Some rid" by auto
        then obtain p where "p \<in> set ?j" "label (snd p) = l" "fst p = rid"
          using fold_load_item_label_from[of ?j new_Table l rid] by (auto simp: new_Table_def)
        then have "map_of (records t) rid = Some (snd p)"
          using set_eq d by (metis map_of_mem prod.collapse)
        then have "labelToID t l = Some rid"
          using ex \<open>label (snd p) = l\<close> unfolding label_map_exact_def by blast
        then show False using None by simp
      qed
      then show ?thesis unfolding t' using None by simp
    next
      case (Some rid)
      then obtain r where r: "map_of (records t) rid = Some r" "label r = l"
        using ex unfolding label_map_exact_def by blast
      then have mem: "(rid, r) \<in> set ?j"
        using set_eq d by simp
      have uniq: "\<forall>p \<in> set ?j. label (snd p) = l \<longrightarrow> fst p = rid"
      proof (intro ballI impI)
        fix p assume p: "p \<in> set ?j" "label (snd p) = l"
        then have "map_of (records t) (fst p) = Some (snd p)"
          using set_eq d by (metis map_of_mem prod.collapse)
        then have "labelToID t l = Some (fst p)"
          using ex p(2) unfolding label_map_exact_def by blast
        then show "fst p = rid" using Some by simp
      qed
      have "labelToID ?T l = Some rid"
        by (rule fold_load_item_label_set[OF uniq]) (use mem r in force)
      then show ?thesis unfolding t' using Some by simp
    qed
  qed
  have dm: "dim ?t' = (case filter (\<lambda>p. embedding (snd p) \<noteq> []) ?j of
              [] \<Rightarrow> 0 | p # rest \<Rightarrow> length (embedding (snd p)))"
    unfolding t' using fold_load_item_dim[of ?j new_Table] by (simp add: new_Table_def)
  have nl: "nextLabel ?t' = (if records t = [] then 0
                             else Max ((\<lambda>p. label (snd p)) ` set (records t)) + 1)"
    if nm: "\<forall>rid r. map_of (records t) rid = Some r \<longrightarrow> label r \<noteq> - 1"
  proof -
    have nm': "\<forall>p \<in> set ?j. label (snd p) \<noteq> - 1"
    proof
      fix p assume "p \<in> set ?j"
      then have "map_of (records t) (fst p) = Some (snd p)"
        using set_eq d by (metis map_of_mem prod.collapse)
      then show "label (snd p) \<noteq> - 1" using nm by blast
    qed
    have n: "nextLabel ?t' = Max (insert 0 ((\<lambda>p. label (snd p) + 1) ` set (records t)))"
      unfolding t' using fold_load_item_nextLabel[OF nm', of new_Table] set_eq
      by (simp add: new_Table_def)
    show ?thesis
    proof (cases "records t = []")
      case True
      then show ?thesis using n by simp
    next
      case False
      let ?L = "(\<lambda>p. label (snd p)) ` set (records t)"
      have "Max (insert 0 ((\<lambda>l. l + 1) ` ?L)) = Max ?L + 1"
        by (rule Max_succ) (use False nm' set_eq in auto)
      moreover have "(\<lambda>l. l + 1) ` ?L = (\<lambda>p. label (snd p) + 1) ` set (records t)"
        by (simp add: image_image)
      ultimately show ?thesis using n False by simp
    qed
  qed
  show ?thesis
    using s m recs idx lab dm nl by blast
qed

text \<open>
  The claim C8 as stated fails in three places. On \<open>dim\<close>: when the first record in key
  order has an empty embedding, \<open>dim\<close> stays 0 after it and is taken from a later record
  (\<open>ex_dims\<close>: lengths 0 and 2, \<open>dim = 2\<close>). On \<open>nextLabel\<close>: when a stored label is \<open>2^64 - 1\<close>,
  \<open>r.label+1\<close> wraps to 0 and a later, smaller label decides (\<open>ex_wrap\<close>: labels \<open>2^64 - 1\<close> and
  5, \<open>nextLabel = 6\<close>). On \<open>fieldIndex\<close>: the entry that the update of \<open>stale_tasks\<close> left
  under name = Alice (see C3) is in the pre-save index and not in the loaded one.
\<close>

theorem save_load_differs:
  "processAll Map.empty dim_tasks = Inr ex_dims
   \<and> map (\<lambda>p. (fst p, length (embedding (snd p)))) (saveTable ex_dims ''docs'')
       = [(''a'', 0), (''b'', 2)]
   \<and> dim (reload ex_dims ''docs'') = 2
   \<and> map (\<lambda>p. (fst p, label (snd p))) (saveTable ex_wrap ''docs'') = [(''a'', - 1), (''b'', 5)]
   \<and> nextLabel (reload ex_wrap ''docs'') = 6
   \<and> processAll Map.empty stale_tasks = Inr ex_stale
   \<and> in_index (fieldIndex (table_at ex_stale ''users'')) ''name'' ''Alice'' ''user1''
   \<and> \<not> in_index (fieldIndex (reload ex_stale ''users'')) ''name'' ''Alice'' ''user1''
   \<and> fieldIndex (reload ex_stale ''users'') \<noteq> fieldIndex (table_at ex_stale ''users'')"
proof -
  have p1: "processAll Map.empty stale_tasks = Inr ex_stale"
    unfolding ex_stale_def by (rule the_tables_Inr) code_simp
  have a: "in_index (fieldIndex (table_at ex_stale ''users'')) ''name'' ''Alice'' ''user1''"
    by code_simp
  have b: "\<not> in_index (fieldIndex (reload ex_stale ''users'')) ''name'' ''Alice'' ''user1''"
    by code_simp
  have c: "fieldIndex (reload ex_stale ''users'') \<noteq> fieldIndex (table_at ex_stale ''users'')"
    using a b by auto
  have p2: "processAll Map.empty dim_tasks = Inr ex_dims"
    unfolding ex_dims_def by (rule the_tables_Inr) code_simp
  have d: "map (\<lambda>p. (fst p, length (embedding (snd p)))) (saveTable ex_dims ''docs'')
           = [(''a'', 0), (''b'', 2)]"
    by code_simp
  have e: "dim (reload ex_dims ''docs'') = 2"
    by code_simp
  have f: "map (\<lambda>p. (fst p, label (snd p))) (saveTable ex_wrap ''docs'')
           = [(''a'', - 1), (''b'', 5)]"
    by code_simp
  have g: "nextLabel (reload ex_wrap ''docs'') = 6"
    by code_simp
  show ?thesis
    using p1 a b c p2 d e f g by simp
qed

lemma less_not_max: "(x :: label) < y \<Longrightarrow> x \<noteq> - 1"
  by (metis word_order.extremum_strict)

theorem save_load_roundtrip_witness:
  "reachable ex_run
   \<and> (\<exists>t. ex_run ''users'' = Some t \<and> label_map_exact t
          \<and> map_of (records (reload ex_run ''users'')) = map_of (records t)
          \<and> labelToID (reload ex_run ''users'') = labelToID t)
   \<and> map (\<lambda>p. (fst p, rfields (snd p))) (saveTable ex_run ''users'')
       = [(''user1'', [(''name'', ''Alice'')]), (''user2'', [(''name'', ''Ann'')]),
          (''user3'', [(''name'', ''Bob'')])]
   \<and> in_index (fieldIndex (reload ex_run ''users'')) ''name'' ''Ann'' ''user2''
   \<and> \<not> in_index (fieldIndex (reload ex_run ''users'')) ''name'' ''Alice'' ''user2''
   \<and> dim (reload ex_run ''users'') = 2
   \<and> nextLabel (reload ex_run ''users'') = 3"
proof -
  have p: "processAll Map.empty run_tasks = Inr ex_run"
    unfolding ex_run_def by (rule the_tables_Inr) code_simp
  have reach: "reachable ex_run"
    by (rule processAll_reachable[OF reachable.start p])
  have "ex_run ''users'' \<noteq> None"
    by code_simp
  then obtain t where t: "ex_run ''users'' = Some t"
    by auto
  then have at: "table_at ex_run ''users'' = t"
    by (simp add: table_at_def)
  have b0: "labels_below (table_at Map.empty ''users'')"
    by (simp add: table_at_def labels_below_new)
  have e0: "label_map_exact (table_at Map.empty ''users'')"
    by (simp add: table_at_def label_map_exact_new)
  have room: "unat (nextLabel (table_at Map.empty ''users'')) + length run_tasks < 2 ^ 64"
    by (simp add: table_at_def new_Table_def run_tasks_def)
  have ex: "label_map_exact t"
    using run_exact[OF p e0 b0 room] at by simp
  have below: "labels_below t"
    using run_labels[OF p b0 room] at by simp
  have nomax: "\<forall>rid r. map_of (records t) rid = Some r \<longrightarrow> label r \<noteq> - 1"
  proof (intro allI impI)
    fix rid r
    assume "map_of (records t) rid = Some r"
    then have "label r < nextLabel t"
      using below by (auto simp: labels_below_def)
    then show "label r \<noteq> - 1"
      by (rule less_not_max)
  qed
  have s: "map (\<lambda>p. (fst p, rfields (snd p))) (saveTable ex_run ''users'')
           = [(''user1'', [(''name'', ''Alice'')]), (''user2'', [(''name'', ''Ann'')]),
              (''user3'', [(''name'', ''Bob'')])]"
    by code_simp
  have i1: "\<exists>r. map_of (records (table_at ex_run ''users'')) ''user2'' = Some r
                 \<and> (''name'', ''Ann'') \<in> set (rfields r)"
  proof -
    have "case map_of (records (table_at ex_run ''users'')) ''user2'' of
            None \<Rightarrow> False | Some r \<Rightarrow> rfields r = [(''name'', ''Ann'')]"
      by code_simp
    then show ?thesis by (auto split: option.splits)
  qed
  have i2: "\<not> (\<exists>r. map_of (records (table_at ex_run ''users'')) ''user2'' = Some r
                 \<and> (''name'', ''Alice'') \<in> set (rfields r))"
  proof -
    have "case map_of (records (table_at ex_run ''users'')) ''user2'' of
            None \<Rightarrow> False | Some r \<Rightarrow> rfields r = [(''name'', ''Ann'')]"
      by code_simp
    then show ?thesis by (auto split: option.splits)
  qed
  have d: "(case filter (\<lambda>p. embedding (snd p) \<noteq> []) (saveTable ex_run ''users'') of
              [] \<Rightarrow> 0 | p # rest \<Rightarrow> length (embedding (snd p))) = 2"
    by code_simp
  have n: "(if records (table_at ex_run ''users'') = [] then 0
            else Max ((\<lambda>p. label (snd p)) ` set (records (table_at ex_run ''users''))) + 1) = 3"
    by code_simp
  show ?thesis
    using save_load_roundtrip[OF reach t, of Map.empty None] reach t ex nomax s i1 i2 d n
    unfolding reload_def at
    by auto
qed

end
